theory Spec2Isabelle
  imports Main "HOL-Library.Word"
begin

section \<open>The ARP module of IncludeOS (src/net/ip4/arp.cpp)\<close>

text \<open>
  A shallow embedding of \<^verbatim>\<open>net::Arp\<close>: the object is a record of its members, every
  member function takes the object and returns the updated one, the link-layer sink
  \<^verbatim>\<open>linklayer_out_\<close> is a log of the calls made to it, and the contract check
  \<^verbatim>\<open>Expects\<close> is an error value.
\<close>

subsection \<open>Addresses, headers and packets\<close>

type_synonym ip4_addr = "32 word"
type_synonym mac_addr = "48 word"
type_synonym timestamp = nat

definition ADDR_BCAST :: ip4_addr where
  "ADDR_BCAST = 0xFFFFFFFF"

definition MAC_BROADCAST :: mac_addr where
  "MAC_BROADCAST = 0xFFFFFFFFFFFF"

text \<open>
  Modelled from the spec: the opcode constants of \<^verbatim>\<open>arp.hpp\<close>, which is not among the
  sources. The wire format has opcode 1 for a request and 2 for a reply; the field of
  the model holds the decoded 16-bit opcode.
\<close>

definition H_request :: "16 word" where
  "H_request = 1"

definition H_reply :: "16 word" where
  "H_reply = 2"

text \<open>
  Modelled from the spec: \<^verbatim>\<open>Arp::header\<close> (declared in \<^verbatim>\<open>arp.hpp\<close>): the address and
  opcode fields of the 28-byte ARP payload. The fixed hardware and protocol fields are
  never read by \<^verbatim>\<open>arp.cpp\<close> and are left out.
\<close>

record header =
  opcode :: "16 word"
  shwaddr :: mac_addr
  sipaddr :: ip4_addr
  dhwaddr :: mac_addr
  dipaddr :: ip4_addr

text \<open>
  Modelled from the spec: the packet buffer of the host stack (\<^verbatim>\<open>net::Packet\<close>, not
  among the sources). A buffer has a size, a content (here an opaque number that tells
  buffers apart) and an optional next buffer, the chain link. \<^verbatim>\<open>chain\<close> appends at the
  tail of the chain.
\<close>

datatype packet = Packet (psize: nat) (pdata: nat) (pnext: "packet option")

fun chain :: "packet \<Rightarrow> packet \<Rightarrow> packet" where
  "chain (Packet n d None) p = Packet n d (Some p)"
| "chain (Packet n d (Some q)) p = Packet n d (Some (chain q p))"

text \<open>The buffers of a chain, head first, each as (size, content).\<close>

fun buffers :: "packet \<Rightarrow> (nat \<times> nat) list" where
  "buffers (Packet n d None) = [(n, d)]"
| "buffers (Packet n d (Some q)) = (n, d) # buffers q"

text \<open>
  An inbound buffer as \<^verbatim>\<open>receive\<close> sees it: \<^verbatim>\<open>in_size\<close> is \<^verbatim>\<open>pckt->size()\<close>, the number
  of bytes after the Ethernet header, and \<^verbatim>\<open>in_hdr\<close> is what
  \<^verbatim>\<open>reinterpret_cast<header*>(pckt->layer_begin())\<close> reads, whatever the size is.
\<close>

record inbound =
  in_size :: nat
  in_hdr :: header

subsection \<open>The link-layer sink\<close>

datatype ethertype = ETH_IP4 | ETH_ARP

datatype payload = Arp_frame header | Ip_chain packet

text \<open>One call \<^verbatim>\<open>linklayer_out_(packet, dest, type)\<close>.\<close>

datatype tx = Tx (tx_payload: payload) (tx_dest: mac_addr) (tx_type: ethertype)

subsection \<open>std::map as a list of pairs in key order\<close>

definition map_find :: "('k \<times> 'v) list \<Rightarrow> 'k \<Rightarrow> 'v option" where
  "map_find m k = map_of m k"

primrec map_put :: "'k::linorder \<Rightarrow> 'v \<Rightarrow> ('k \<times> 'v) list \<Rightarrow> ('k \<times> 'v) list" where
  "map_put k v [] = [(k, v)]"
| "map_put k v (e # m) =
     (if fst e = k then (k, v) # m
      else if k < fst e then (k, v) # e # m
      else e # map_put k v m)"

definition map_erase :: "'k \<Rightarrow> ('k \<times> 'v) list \<Rightarrow> ('k \<times> 'v) list" where
  "map_erase k m = filter (\<lambda>e. fst e \<noteq> k) m"

definition map_keys :: "('k \<times> 'v) list \<Rightarrow> 'k list" where
  "map_keys m = map fst m"

text \<open>The representation invariant of \<^verbatim>\<open>std::map\<close>: keys strictly ascending.\<close>

definition map_ok :: "('k::linorder \<times> 'v) list \<Rightarrow> bool" where
  "map_ok m = sorted_wrt (<) (map_keys m)"

subsection \<open>The object\<close>

text \<open>
  Modelled from the spec: \<^verbatim>\<open>Arp::cache_entry\<close> (declared in \<^verbatim>\<open>arp.hpp\<close>): a MAC address
  and the time of the last refresh. Constructing an entry from a MAC address and
  \<^verbatim>\<open>update()\<close> both stamp it with the current time; an entry is expired when
  \<^verbatim>\<open>now - timestamp >= flush_interval\<close>. The clock is the parameter \<^verbatim>\<open>now\<close> of the
  operations that read it.
\<close>

record cache_entry =
  mac :: mac_addr
  timestamp :: timestamp

definition new_entry :: "mac_addr \<Rightarrow> timestamp \<Rightarrow> cache_entry" where
  "new_entry m now = \<lparr>mac = m, timestamp = now\<rparr>"

definition update :: "cache_entry \<Rightarrow> timestamp \<Rightarrow> cache_entry" where
  "update e now = e\<lparr>timestamp := now\<rparr>"

definition expired :: "cache_entry \<Rightarrow> timestamp \<Rightarrow> nat \<Rightarrow> bool" where
  "expired e now interval = (timestamp e \<le> now \<and> interval \<le> now - timestamp e)"

text \<open>
  The members of \<^verbatim>\<open>Arp\<close>. \<^verbatim>\<open>inet_ip_addr\<close> is \<^verbatim>\<open>inet_.ip_addr()\<close>, read from the stack
  at each use. A timer is its \<^verbatim>\<open>is_running()\<close> flag. \<^verbatim>\<open>link_out\<close> lists the calls of
  \<^verbatim>\<open>linklayer_out_\<close>, oldest first.
\<close>

record arp =
  requests_rx :: "32 word"
  requests_tx :: "32 word"
  replies_rx :: "32 word"
  replies_tx :: "32 word"
  inet_ip_addr :: ip4_addr
  mac_local :: mac_addr
  cache_map :: "(ip4_addr \<times> cache_entry) list"
  waiting_packets :: "(ip4_addr \<times> packet) list"
  proxy :: "(ip4_addr \<Rightarrow> bool) option"
  flush_timer :: bool
  resolve_timer :: bool
  flush_interval :: nat
  link_out :: "tx list"

datatype error = Contract_violation

text \<open>The constructor: counters at zero, both maps empty, both timers stopped.\<close>

definition Arp_init :: "ip4_addr \<Rightarrow> mac_addr \<Rightarrow> nat \<Rightarrow> arp" where
  "Arp_init ip m interval =
     \<lparr>requests_rx = 0, requests_tx = 0, replies_rx = 0, replies_tx = 0,
      inet_ip_addr = ip, mac_local = m, cache_map = [], waiting_packets = [],
      proxy = None, flush_timer = False, resolve_timer = False,
      flush_interval = interval, link_out = []\<rparr>"

definition linklayer_out :: "arp \<Rightarrow> payload \<Rightarrow> mac_addr \<Rightarrow> ethertype \<Rightarrow> arp" where
  "linklayer_out s p dest ty = s\<lparr>link_out := link_out s @ [Tx p dest ty]\<rparr>"

subsection \<open>Arp::cache\<close>

definition cache :: "arp \<Rightarrow> ip4_addr \<Rightarrow> mac_addr \<Rightarrow> timestamp \<Rightarrow> arp" where
  "cache s ip m now =
     (case map_find (cache_map s) ip of
        Some entry \<Rightarrow>
          (if mac entry \<noteq> m
           then s\<lparr>cache_map := map_put ip (new_entry m now) (map_erase ip (cache_map s))\<rparr>
           else s\<lparr>cache_map := map_put ip (update entry now) (cache_map s)\<rparr>)
      | None \<Rightarrow>
          (let s1 = s\<lparr>cache_map := map_put ip (new_entry m now) (cache_map s)\<rparr>
           in if \<not> flush_timer s1 then s1\<lparr>flush_timer := True\<rparr> else s1))"

subsection \<open>Arp::arp_respond and Arp::arp_resolve\<close>

text \<open>
  Modelled from the spec: \<^verbatim>\<open>PacketArp\<close> (declared in \<^verbatim>\<open>packet_arp.hpp\<close>).
  \<^verbatim>\<open>init(local_mac, local_ip, dest_ip)\<close> fills in sender MAC, sender IPv4 and target
  IPv4; \<^verbatim>\<open>set_dest_mac\<close> sets the target MAC and \<^verbatim>\<open>set_opcode\<close> the opcode.
\<close>

definition packet_arp_init :: "mac_addr \<Rightarrow> ip4_addr \<Rightarrow> ip4_addr \<Rightarrow> header" where
  "packet_arp_init local_mac local_ip dest_ip =
     \<lparr>opcode = 0, shwaddr = local_mac, sipaddr = local_ip, dhwaddr = 0, dipaddr = dest_ip\<rparr>"

definition arp_respond :: "arp \<Rightarrow> header \<Rightarrow> ip4_addr \<Rightarrow> arp" where
  "arp_respond s hdr_in ack_ip =
     (let s1 = s\<lparr>replies_tx := replies_tx s + 1\<rparr>;
          res = packet_arp_init (mac_local s1) ack_ip (sipaddr hdr_in);
          res = res\<lparr>dhwaddr := shwaddr hdr_in\<rparr>;
          res = res\<lparr>opcode := H_reply\<rparr>;
          dest = shwaddr hdr_in
      in linklayer_out s1 (Arp_frame res) dest ETH_ARP)"

definition arp_resolve :: "arp \<Rightarrow> ip4_addr \<Rightarrow> arp" where
  "arp_resolve s next_hop =
     (let req = packet_arp_init (mac_local s) (inet_ip_addr s) next_hop;
          req = req\<lparr>dhwaddr := MAC_BROADCAST\<rparr>;
          req = req\<lparr>opcode := H_request\<rparr>;
          s1 = s\<lparr>requests_tx := requests_tx s + 1\<rparr>
      in linklayer_out s1 (Arp_frame req) MAC_BROADCAST ETH_ARP)"

subsection \<open>Arp::await_resolution, Arp::transmit, Arp::receive\<close>

text \<open>
  Modelled from the spec: the delegate \<^verbatim>\<open>arp_resolver_\<close> (declared in \<^verbatim>\<open>arp.hpp\<close>).
  The spec has an enqueue and a tick issue \<^verbatim>\<open>resolve(ip)\<close>, which is \<^verbatim>\<open>arp_resolve\<close>; the
  model calls \<^verbatim>\<open>arp_resolve\<close>. Starting a timer sets its flag; the duration is not
  modelled.
\<close>

definition await_resolution :: "arp \<Rightarrow> packet \<Rightarrow> ip4_addr \<Rightarrow> arp" where
  "await_resolution s pckt next_hop =
     (case map_find (waiting_packets s) next_hop of
        Some queue \<Rightarrow>
          s\<lparr>waiting_packets := map_put next_hop (chain queue pckt) (waiting_packets s)\<rparr>
      | None \<Rightarrow>
          (let s1 = s\<lparr>waiting_packets := map_put next_hop pckt (waiting_packets s)\<rparr>;
               s2 = arp_resolve s1 next_hop
           in s2\<lparr>resolve_timer := True\<rparr>))"

text \<open>The build without \<^verbatim>\<open>ARP_PASSTHROUGH\<close>.\<close>

definition transmit :: "arp \<Rightarrow> packet \<Rightarrow> ip4_addr \<Rightarrow> error + arp" where
  "transmit s pckt next_hop =
     (if psize pckt = 0 then Inl Contract_violation
      else if next_hop = ADDR_BCAST
        then Inr (linklayer_out s (Ip_chain pckt) MAC_BROADCAST ETH_IP4)
      else (case map_find (cache_map s) next_hop of
              None \<Rightarrow> Inr (await_resolution s pckt next_hop)
            | Some cache_entry \<Rightarrow>
                Inr (linklayer_out s (Ip_chain pckt) (mac cache_entry) ETH_IP4)))"

text \<open>
  \<^verbatim>\<open>receive\<close> in its three steps: learn the sender (\<^verbatim>\<open>cache\<close>), ship the waiting
  chain of the sender (\<^verbatim>\<open>ship_waiting\<close>, lines 50 to 56), and the switch on the opcode
  (\<^verbatim>\<open>dispatch\<close>, lines 58 to 95). The buffer's size is read by the debug output only.
\<close>

definition ship_waiting :: "arp \<Rightarrow> ip4_addr \<Rightarrow> error + arp" where
  "ship_waiting s ip =
     (case map_find (waiting_packets s) ip of
        None \<Rightarrow> Inr s
      | Some waiting \<Rightarrow>
          (case transmit s waiting ip of
             Inl e \<Rightarrow> Inl e
           | Inr s1 \<Rightarrow> Inr (s1\<lparr>waiting_packets := map_erase ip (waiting_packets s1)\<rparr>)))"

definition dispatch :: "arp \<Rightarrow> header \<Rightarrow> arp" where
  "dispatch s hdr =
     (if opcode hdr = H_request then
        (let s1 = s\<lparr>requests_rx := requests_rx s + 1\<rparr>
         in if dipaddr hdr = inet_ip_addr s1 then arp_respond s1 hdr (inet_ip_addr s1)
            else if (case proxy s1 of None \<Rightarrow> False | Some f \<Rightarrow> f (dipaddr hdr))
              then arp_respond s1 hdr (dipaddr hdr)
            else s1)
      else if opcode hdr = H_reply then s\<lparr>replies_rx := replies_rx s + 1\<rparr>
      else s)"

definition receive :: "arp \<Rightarrow> inbound \<Rightarrow> timestamp \<Rightarrow> error + arp" where
  "receive s pckt now =
     (let hdr = in_hdr pckt;
          s1 = cache s (sipaddr hdr) (shwaddr hdr) now
      in case ship_waiting s1 (sipaddr hdr) of
           Inl e \<Rightarrow> Inl e
         | Inr s2 \<Rightarrow> Inr (dispatch s2 hdr))"

subsection \<open>The timer callbacks\<close>

definition resolve_waiting :: "arp \<Rightarrow> arp" where
  "resolve_waiting s =
     (if waiting_packets s = [] then s\<lparr>resolve_timer := False\<rparr>
      else (fold (\<lambda>packet_it s'. arp_resolve s' (fst packet_it)) (waiting_packets s) s)
             \<lparr>resolve_timer := True\<rparr>)"

definition flush_expired :: "arp \<Rightarrow> timestamp \<Rightarrow> arp" where
  "flush_expired s now =
     (let expired_ips =
            map fst (filter (\<lambda>ent. expired (snd ent) now (flush_interval s)) (cache_map s));
          s1 = s\<lparr>cache_map := fold map_erase expired_ips (cache_map s)\<rparr>
      in if cache_map s1 \<noteq> [] then s1\<lparr>flush_timer := True\<rparr> else s1)"

text \<open>
  Modelled from the spec: the timer service (\<^verbatim>\<open>Timer\<close>, not among the sources):
  timers are single-shot, so a timer that expires is no longer running when its
  callback runs, and a timer that is not running does not expire.
\<close>

definition resolve_timer_timeout :: "arp \<Rightarrow> arp" where
  "resolve_timer_timeout s =
     (if resolve_timer s then resolve_waiting (s\<lparr>resolve_timer := False\<rparr>) else s)"

definition flush_timer_timeout :: "arp \<Rightarrow> timestamp \<Rightarrow> arp" where
  "flush_timer_timeout s now =
     (if flush_timer s then flush_expired (s\<lparr>flush_timer := False\<rparr>) now else s)"

subsection \<open>Runs of the module\<close>

text \<open>
  What the host can do with the object: deliver a frame, transmit a packet, let one of
  the two timers expire, install a proxy predicate (\<^verbatim>\<open>set_proxy\<close> of the spec) and
  change the stack's IPv4 address.
\<close>

datatype event =
    Receive inbound timestamp
  | Transmit packet ip4_addr
  | Resolve_timeout
  | Flush_timeout timestamp
  | Set_proxy "(ip4_addr \<Rightarrow> bool) option"
  | Set_ip ip4_addr

fun step :: "arp \<Rightarrow> event \<Rightarrow> error + arp" where
  "step s (Receive pckt now) = receive s pckt now"
| "step s (Transmit pckt next_hop) = transmit s pckt next_hop"
| "step s Resolve_timeout = Inr (resolve_timer_timeout s)"
| "step s (Flush_timeout now) = Inr (flush_timer_timeout s now)"
| "step s (Set_proxy f) = Inr (s\<lparr>proxy := f\<rparr>)"
| "step s (Set_ip ip) = Inr (s\<lparr>inet_ip_addr := ip\<rparr>)"

fun run :: "arp \<Rightarrow> event list \<Rightarrow> error + arp" where
  "run s [] = Inr s"
| "run s (e # es) = (case step s e of Inl x \<Rightarrow> Inl x | Inr s' \<Rightarrow> run s' es)"

inductive reachable :: "arp \<Rightarrow> bool" where
  reachable_init: "reachable (Arp_init ip m interval)"
| reachable_step: "reachable s \<Longrightarrow> step s e = Inr s' \<Longrightarrow> reachable s'"

text \<open>
  The facts that hold of every reachable object: both maps are well formed, no chain
  waits for the broadcast address, the head of every waiting chain has a size, the
  flush timer runs exactly when the cache has an entry, and the resolve timer runs
  whenever a chain waits.
\<close>

definition arp_inv :: "arp \<Rightarrow> bool" where
  "arp_inv s \<longleftrightarrow>
     map_ok (cache_map s) \<and> map_ok (waiting_packets s) \<and>
     map_find (waiting_packets s) ADDR_BCAST = None \<and>
     list_all (\<lambda>e. psize (snd e) \<noteq> 0) (waiting_packets s) \<and>
     (flush_timer s \<longleftrightarrow> cache_map s \<noteq> []) \<and>
     (waiting_packets s \<noteq> [] \<longrightarrow> resolve_timer s)"

subsection \<open>Observations on the link-layer log\<close>

definition is_arp_request_for :: "ip4_addr \<Rightarrow> tx \<Rightarrow> bool" where
  "is_arp_request_for ip t =
     (case tx_payload t of
        Arp_frame h \<Rightarrow> tx_type t = ETH_ARP \<and> opcode h = H_request \<and> dipaddr h = ip
      | Ip_chain p \<Rightarrow> False)"

definition arp_requests_for :: "ip4_addr \<Rightarrow> tx list \<Rightarrow> nat" where
  "arp_requests_for ip txs = length (filter (is_arp_request_for ip) txs)"

definition ip4_frames :: "tx list \<Rightarrow> tx list" where
  "ip4_frames txs = filter (\<lambda>t. tx_type t = ETH_IP4) txs"

definition arp_frames :: "tx list \<Rightarrow> tx list" where
  "arp_frames txs = filter (\<lambda>t. tx_type t = ETH_ARP) txs"


text \<open>The frame that \<^verbatim>\<open>arp_resolve\<close> hands to the link for \<^verbatim>\<open>next_hop\<close>.\<close>

definition request_frame :: "mac_addr \<Rightarrow> ip4_addr \<Rightarrow> ip4_addr \<Rightarrow> tx" where
  "request_frame local_mac local_ip next_hop =
     Tx (Arp_frame \<lparr>opcode = H_request, shwaddr = local_mac, sipaddr = local_ip,
                    dhwaddr = MAC_BROADCAST, dipaddr = next_hop\<rparr>) MAC_BROADCAST ETH_ARP"

text \<open>
  The calls that \<^verbatim>\<open>receive\<close> makes to the link when it ships the chain waiting for
  \<^verbatim>\<open>ip\<close> to the MAC address \<^verbatim>\<open>m\<close>: one call with the head of the chain, or none.
\<close>

definition drained :: "arp \<Rightarrow> ip4_addr \<Rightarrow> mac_addr \<Rightarrow> tx list" where
  "drained s ip m =
     (case map_find (waiting_packets s) ip of
        None \<Rightarrow> []
      | Some q \<Rightarrow> [Tx (Ip_chain q) m ETH_IP4])"


text \<open>The frame that \<^verbatim>\<open>arp_respond\<close> hands to the link, with its destination.\<close>

definition reply_frame :: "mac_addr \<Rightarrow> ip4_addr \<Rightarrow> header \<Rightarrow> tx" where
  "reply_frame local_mac ack_ip hdr_in =
     Tx (Arp_frame \<lparr>opcode = H_reply, shwaddr = local_mac, sipaddr = ack_ip,
                    dhwaddr = shwaddr hdr_in, dipaddr = sipaddr hdr_in\<rparr>)
        (shwaddr hdr_in) ETH_ARP"

subsection \<open>Example values\<close>

text \<open>
  A host 10.0.0.1 with a peer 10.0.0.3, two packets, the object after construction and
  the object after the first packet was transmitted to the peer.
\<close>

definition ex_local_ip :: ip4_addr where
  "ex_local_ip = 0x0A000001"

definition ex_local_mac :: mac_addr where
  "ex_local_mac = 0x020000000001"

definition ex_peer_ip :: ip4_addr where
  "ex_peer_ip = 0x0A000003"

definition ex_peer_mac :: mac_addr where
  "ex_peer_mac = 0x020000000003"

definition ex_p1 :: packet where
  "ex_p1 = Packet 100 1 None"

definition ex_p2 :: packet where
  "ex_p2 = Packet 60 2 None"

definition ex_init :: arp where
  "ex_init = Arp_init ex_local_ip ex_local_mac 300"

definition ex_pending :: arp where
  "ex_pending =
     ex_init\<lparr>requests_tx := 1, waiting_packets := [(ex_peer_ip, ex_p1)],
             resolve_timer := True,
             link_out := [request_frame ex_local_mac ex_local_ip ex_peer_ip]\<rparr>"

text \<open>The object after the peer's reply has arrived at time 5.\<close>

definition ex_answered :: arp where
  "ex_answered =
     ex_pending\<lparr>replies_rx := 1,
                cache_map := [(ex_peer_ip, \<lparr>mac = ex_peer_mac, timestamp = 5\<rparr>)],
                waiting_packets := [], flush_timer := True,
                link_out := [request_frame ex_local_mac ex_local_ip ex_peer_ip,
                             Tx (Ip_chain ex_p1) ex_peer_mac ETH_IP4]\<rparr>"

text \<open>An inbound frame from the peer with the given opcode and target address.\<close>

definition ex_frame :: "16 word \<Rightarrow> ip4_addr \<Rightarrow> inbound" where
  "ex_frame op target =
     \<lparr>in_size = 28,
      in_hdr = \<lparr>opcode = op, shwaddr = ex_peer_mac, sipaddr = ex_peer_ip,
                dhwaddr = 0, dipaddr = target\<rparr>\<rparr>"


text \<open>
  The object after two frames that name the local address and the broadcast address as
  their sender.
\<close>

definition ex_spoof_frame :: "ip4_addr \<Rightarrow> inbound" where
  "ex_spoof_frame sender =
     \<lparr>in_size = 28,
      in_hdr = \<lparr>opcode = H_reply, shwaddr = ex_peer_mac, sipaddr = sender,
                dhwaddr = 0, dipaddr = ex_local_ip\<rparr>\<rparr>"

definition ex_spoofed :: arp where
  "ex_spoofed =
     ex_init\<lparr>replies_rx := 2,
             cache_map := [(ex_local_ip, \<lparr>mac = ex_peer_mac, timestamp = 5\<rparr>),
                           (ADDR_BCAST, \<lparr>mac = ex_peer_mac, timestamp = 6\<rparr>)],
             flush_timer := True\<rparr>"

subsection \<open>Observations on runs\<close>

text \<open>The sender IPv4 addresses of the frames delivered in a run.\<close>

fun senders :: "event list \<Rightarrow> ip4_addr list" where
  "senders [] = []"
| "senders (Receive pckt now # es) = sipaddr (in_hdr pckt) # senders es"
| "senders (e # es) = senders es"

text \<open>
  Runs in which packets of non-zero size are transmitted to one next hop \<^verbatim>\<open>ip\<close>, the
  resolve timer expires, and nothing else happens.
\<close>

fun tx_or_tick :: "ip4_addr \<Rightarrow> event \<Rightarrow> bool" where
  "tx_or_tick ip (Transmit p hop) = (hop = ip \<and> psize p \<noteq> 0)"
| "tx_or_tick ip Resolve_timeout = True"
| "tx_or_tick ip e = False"

fun ticks :: "event list \<Rightarrow> nat" where
  "ticks [] = 0"
| "ticks (Resolve_timeout # es) = Suc (ticks es)"
| "ticks (e # es) = ticks es"

text \<open>
  The number of requests the claim expects: none before the first transmit, one at
  the first transmit, one more for each expiry of the resolve timer after it.
\<close>

fun expected_requests :: "event list \<Rightarrow> nat" where
  "expected_requests [] = 0"
| "expected_requests (Transmit p hop # es) = Suc (ticks es)"
| "expected_requests (e # es) = expected_requests es"

text \<open>A second peer, 10.0.0.7, a reply from it, and a run that involves both peers.\<close>

definition ex_other_ip :: ip4_addr where
  "ex_other_ip = 0x0A000007"

definition ex_other_frame :: inbound where
  "ex_other_frame =
     \<lparr>in_size = 28,
      in_hdr = \<lparr>opcode = H_reply, shwaddr = 0x020000000007, sipaddr = ex_other_ip,
                dhwaddr = 0, dipaddr = ex_local_ip\<rparr>\<rparr>"

definition ex_run :: "event list" where
  "ex_run =
     [Transmit ex_p1 ex_peer_ip, Transmit ex_p2 ex_other_ip, Receive ex_other_frame 5,
      Transmit ex_p2 ex_peer_ip]"

text \<open>The buffers that wait for an address, head first; none if no chain waits.\<close>

definition waiting_buffers :: "arp \<Rightarrow> ip4_addr \<Rightarrow> (nat \<times> nat) list" where
  "waiting_buffers s k =
     (case map_find (waiting_packets s) k of None \<Rightarrow> [] | Some q \<Rightarrow> buffers q)"

text \<open>
  The events that leave the chain of the address \<^verbatim>\<open>k\<close> alone: every event but a frame
  from \<^verbatim>\<open>k\<close> and a transmit to \<^verbatim>\<open>k\<close> that misses the cache.
\<close>

fun untouched :: "ip4_addr \<Rightarrow> arp \<Rightarrow> event \<Rightarrow> bool" where
  "untouched k s (Receive pckt now) = (sipaddr (in_hdr pckt) \<noteq> k)"
| "untouched k s (Transmit p hop) =
     (hop \<noteq> k \<or> hop = ADDR_BCAST \<or> map_find (cache_map s) hop \<noteq> None)"
| "untouched k s e = True"

text \<open>
  What the claim expects to wait for \<^verbatim>\<open>k\<close> after an event: nothing after a frame from
  \<^verbatim>\<open>k\<close>, the buffers of the packet appended after a transmit to \<^verbatim>\<open>k\<close> that misses the
  cache, and the same buffers as before after any other event; \<^verbatim>\<open>queued\<close> follows a
  run.
\<close>

fun queue_after :: "ip4_addr \<Rightarrow> arp \<Rightarrow> event \<Rightarrow> (nat \<times> nat) list \<Rightarrow> (nat \<times> nat) list" where
  "queue_after k s (Receive pckt now) bs = (if sipaddr (in_hdr pckt) = k then [] else bs)"
| "queue_after k s (Transmit p hop) bs =
     (if hop = k \<and> hop \<noteq> ADDR_BCAST \<and> map_find (cache_map s) hop = None
      then bs @ buffers p else bs)"
| "queue_after k s e bs = bs"

fun queued :: "ip4_addr \<Rightarrow> arp \<Rightarrow> event list \<Rightarrow> (nat \<times> nat) list \<Rightarrow> (nat \<times> nat) list" where
  "queued k s [] bs = bs"
| "queued k s (e # es) bs =
     (case step s e of Inl x \<Rightarrow> bs | Inr s' \<Rightarrow> queued k s' es (queue_after k s e bs))"

section \<open>Facts about the model\<close>

subsection \<open>The maps\<close>

lemma map_find_put: "map_find (map_put k v m) k' = (if k' = k then Some v else map_find m k')"
  by (induction m) (auto simp: map_find_def)

lemma map_find_erase: "map_find (map_erase k m) k' = (if k' = k then None else map_find m k')"
  by (induction m) (auto simp: map_find_def map_erase_def)

lemma map_keys_put: "set (map_keys (map_put k v m)) = insert k (set (map_keys m))"
  by (induction m) (auto simp: map_keys_def)

lemma map_keys_erase: "set (map_keys (map_erase k m)) = set (map_keys m) - {k}"
  by (auto simp: map_keys_def map_erase_def)

lemma map_ok_Nil: "map_ok []"
  by (simp add: map_ok_def map_keys_def)

lemma map_ok_put: "map_ok m \<Longrightarrow> map_ok (map_put k v m)"
proof (induction m)
  case Nil
  then show ?case by (simp add: map_ok_def map_keys_def)
next
  case (Cons e m)
  have ks: "set (map fst (map_put k v m)) = insert k (set (map fst m))"
    using map_keys_put [of k v m] by (simp add: map_keys_def)
  from Cons show ?case
    unfolding map_ok_def map_keys_def
    by (auto simp: ks simp del: set_map)
qed

lemma map_ok_erase: "map_ok m \<Longrightarrow> map_ok (map_erase k m)"
  by (induction m) (auto simp: map_ok_def map_keys_def map_erase_def)

lemma set_map_put: "set (map_put k v m) \<subseteq> insert (k, v) (set m)"
  by (induction m) auto

lemma set_map_erase: "set (map_erase k m) \<subseteq> set m"
  by (auto simp: map_erase_def)

lemma map_put_nonempty: "map_put k v m \<noteq> []"
  by (cases m) auto

lemma map_find_None_iff: "map_find m k = None \<longleftrightarrow> k \<notin> set (map_keys m)"
  by (simp add: map_find_def map_keys_def map_of_eq_None_iff)

lemma map_find_in_set: "map_find m k = Some v \<Longrightarrow> (k, v) \<in> set m"
  by (simp add: map_find_def map_of_SomeD)

lemma map_ok_entries:
  "map_ok m \<Longrightarrow> filter (\<lambda>e. fst e = k) m = (case map_find m k of None \<Rightarrow> [] | Some v \<Rightarrow> [(k, v)])"
proof (induction m)
  case Nil
  then show ?case by (simp add: map_find_def)
next
  case (Cons e m)
  then have ok: "map_ok m" and lt: "\<forall>x\<in>set m. fst e < fst x"
    by (auto simp: map_ok_def map_keys_def)
  show ?case
  proof (cases "fst e = k")
    case True
    with lt have "filter (\<lambda>e. fst e = k) m = []"
      by (auto simp: filter_empty_conv)
    with True show ?thesis by (cases e) (simp add: map_find_def)
  next
    case False
    with Cons.IH [OF ok] show ?thesis by (cases e) (simp add: map_find_def)
  qed
qed

lemma psize_chain: "psize (chain q p) = psize q"
  by (induction q p rule: chain.induct) auto

lemma buffers_chain: "buffers (chain q p) = buffers q @ buffers p"
  by (induction q p rule: chain.induct) auto


subsection \<open>Fields that the operations leave alone\<close>

lemma cache_fields [simp]:
  "waiting_packets (cache s ip m now) = waiting_packets s"
  "link_out (cache s ip m now) = link_out s"
  "requests_rx (cache s ip m now) = requests_rx s"
  "requests_tx (cache s ip m now) = requests_tx s"
  "replies_rx (cache s ip m now) = replies_rx s"
  "replies_tx (cache s ip m now) = replies_tx s"
  "resolve_timer (cache s ip m now) = resolve_timer s"
  "inet_ip_addr (cache s ip m now) = inet_ip_addr s"
  "mac_local (cache s ip m now) = mac_local s"
  "proxy (cache s ip m now) = proxy s"
  by (simp_all add: cache_def Let_def split: option.splits)

lemma cache_lookup:
  "map_find (cache_map (cache s ip m now)) k =
     (if k = ip then Some \<lparr>mac = m, timestamp = now\<rparr> else map_find (cache_map s) k)"
  by (auto simp: cache_def Let_def map_find_put map_find_erase new_entry_def update_def
      split: option.splits)

lemma cache_nonempty: "cache_map (cache s ip m now) \<noteq> []"
  by (simp add: cache_def Let_def map_put_nonempty split: option.splits)

lemma cache_map_ok: "map_ok (cache_map s) \<Longrightarrow> map_ok (cache_map (cache s ip m now))"
  by (simp add: cache_def Let_def map_ok_put map_ok_erase split: option.splits)

lemma cache_flush_timer:
  "(flush_timer s \<longleftrightarrow> cache_map s \<noteq> []) \<Longrightarrow> flush_timer (cache s ip m now)"
  by (auto simp: cache_def Let_def map_find_def split: option.splits)

lemma arp_inv_cache: "arp_inv s \<Longrightarrow> arp_inv (cache s ip m now)"
  unfolding arp_inv_def
  using cache_map_ok [of s ip m now] cache_flush_timer [of s ip m now]
    cache_nonempty [of s ip m now]
  by simp

lemma arp_resolve_fields [simp]:
  "cache_map (arp_resolve s hop) = cache_map s"
  "waiting_packets (arp_resolve s hop) = waiting_packets s"
  "flush_timer (arp_resolve s hop) = flush_timer s"
  "resolve_timer (arp_resolve s hop) = resolve_timer s"
  "requests_rx (arp_resolve s hop) = requests_rx s"
  "replies_rx (arp_resolve s hop) = replies_rx s"
  "replies_tx (arp_resolve s hop) = replies_tx s"
  "requests_tx (arp_resolve s hop) = requests_tx s + 1"
  "inet_ip_addr (arp_resolve s hop) = inet_ip_addr s"
  "mac_local (arp_resolve s hop) = mac_local s"
  "link_out (arp_resolve s hop) = link_out s @ [request_frame (mac_local s) (inet_ip_addr s) hop]"
  by (simp_all add: arp_resolve_def Let_def linklayer_out_def request_frame_def
      packet_arp_init_def)

lemma await_resolution_fields [simp]:
  "cache_map (await_resolution s p hop) = cache_map s"
  "flush_timer (await_resolution s p hop) = flush_timer s"
  "requests_rx (await_resolution s p hop) = requests_rx s"
  "replies_rx (await_resolution s p hop) = replies_rx s"
  "replies_tx (await_resolution s p hop) = replies_tx s"
  "inet_ip_addr (await_resolution s p hop) = inet_ip_addr s"
  "mac_local (await_resolution s p hop) = mac_local s"
  by (simp_all add: await_resolution_def Let_def split: option.splits)

lemma await_resolution_waiting:
  "waiting_packets (await_resolution s p hop) =
     map_put hop (case map_find (waiting_packets s) hop of None \<Rightarrow> p | Some q \<Rightarrow> chain q p)
       (waiting_packets s)"
  by (simp add: await_resolution_def Let_def split: option.splits)

lemma await_resolution_link_out:
  "link_out (await_resolution s p hop) =
     (case map_find (waiting_packets s) hop of
        None \<Rightarrow> link_out s @ [request_frame (mac_local s) (inet_ip_addr s) hop]
      | Some q \<Rightarrow> link_out s)"
  by (simp add: await_resolution_def Let_def split: option.splits)

lemma await_resolution_timer:
  "resolve_timer (await_resolution s p hop) =
     (case map_find (waiting_packets s) hop of None \<Rightarrow> True | Some q \<Rightarrow> resolve_timer s)"
  by (simp add: await_resolution_def Let_def split: option.splits)

lemma list_all_map_put:
  "list_all P m \<Longrightarrow> P (k, v) \<Longrightarrow> list_all P (map_put k v m)"
  by (induction m) auto

lemma list_all_map_erase: "list_all P m \<Longrightarrow> list_all P (map_erase k m)"
  by (simp add: map_erase_def list_all_iff)

lemma arp_inv_await_resolution:
  assumes "arp_inv s" and "psize p \<noteq> 0" and "hop \<noteq> ADDR_BCAST"
  shows "arp_inv (await_resolution s p hop)"
proof -
  let ?v = "case map_find (waiting_packets s) hop of None \<Rightarrow> p | Some q \<Rightarrow> chain q p"
  have sz: "psize ?v \<noteq> 0"
  proof (cases "map_find (waiting_packets s) hop")
    case None
    with assms(2) show ?thesis by simp
  next
    case (Some q)
    then have "(hop, q) \<in> set (waiting_packets s)" by (rule map_find_in_set)
    with assms(1) have "psize q \<noteq> 0" by (auto simp: arp_inv_def list_all_iff)
    with Some show ?thesis by (simp add: psize_chain)
  qed
  have tm: "resolve_timer (await_resolution s p hop)"
    using assms(1)
    by (auto simp: await_resolution_timer arp_inv_def map_find_def split: option.splits)
  from assms(1,3) sz tm show ?thesis
    unfolding arp_inv_def
    by (simp add: await_resolution_waiting map_ok_put map_find_put list_all_map_put)
qed

lemma arp_inv_link_out: "arp_inv (s\<lparr>link_out := l\<rparr>) = arp_inv s"
  by (simp add: arp_inv_def)

lemma arp_inv_transmit:
  "arp_inv s \<Longrightarrow> transmit s p hop = Inr s' \<Longrightarrow> arp_inv s'"
  by (auto simp: transmit_def linklayer_out_def arp_inv_link_out arp_inv_await_resolution
      split: if_splits option.splits)


lemma map_erase_absent: "map_find m k = None \<Longrightarrow> map_erase k m = m"
  by (induction m) (auto simp: map_find_def map_erase_def split: if_splits)

lemma map_erase_nonempty: "map_erase k m \<noteq> [] \<Longrightarrow> m \<noteq> []"
  by (auto simp: map_erase_def)

lemma ship_waiting_result:
  assumes inv: "arp_inv s" and hit: "map_find (cache_map s) ip = Some e"
  shows "ship_waiting s ip =
           Inr (s\<lparr>link_out := link_out s @ drained s ip (mac e),
                  waiting_packets := map_erase ip (waiting_packets s)\<rparr>)"
proof (cases "map_find (waiting_packets s) ip")
  case None
  then show ?thesis
    by (simp add: ship_waiting_def drained_def map_erase_absent)
next
  case (Some q)
  then have "(ip, q) \<in> set (waiting_packets s)" by (rule map_find_in_set)
  with inv have sz: "psize q \<noteq> 0" by (auto simp: arp_inv_def list_all_iff)
  from inv Some have nb: "ip \<noteq> ADDR_BCAST" by (auto simp: arp_inv_def)
  from Some sz nb hit show ?thesis
    by (simp add: ship_waiting_def drained_def transmit_def linklayer_out_def)
qed

lemma arp_respond_fields [simp]:
  "cache_map (arp_respond s h a) = cache_map s"
  "waiting_packets (arp_respond s h a) = waiting_packets s"
  "flush_timer (arp_respond s h a) = flush_timer s"
  "resolve_timer (arp_respond s h a) = resolve_timer s"
  "requests_rx (arp_respond s h a) = requests_rx s"
  "requests_tx (arp_respond s h a) = requests_tx s"
  "replies_rx (arp_respond s h a) = replies_rx s"
  "replies_tx (arp_respond s h a) = replies_tx s + 1"
  "inet_ip_addr (arp_respond s h a) = inet_ip_addr s"
  "mac_local (arp_respond s h a) = mac_local s"
  "link_out (arp_respond s h a) = link_out s @ [reply_frame (mac_local s) a h]"
  by (simp_all add: arp_respond_def Let_def linklayer_out_def reply_frame_def
      packet_arp_init_def)

lemma dispatch_fields [simp]:
  "cache_map (dispatch s h) = cache_map s"
  "waiting_packets (dispatch s h) = waiting_packets s"
  "flush_timer (dispatch s h) = flush_timer s"
  "resolve_timer (dispatch s h) = resolve_timer s"
  "requests_tx (dispatch s h) = requests_tx s"
  "inet_ip_addr (dispatch s h) = inet_ip_addr s"
  "mac_local (dispatch s h) = mac_local s"
  by (simp_all add: dispatch_def Let_def)

lemma arp_inv_dispatch: "arp_inv (dispatch s h) = arp_inv s"
  by (simp add: arp_inv_def)

text \<open>The object between the second and the third step of \<^verbatim>\<open>receive\<close>.\<close>

lemma receive_result:
  assumes inv: "arp_inv s"
  shows "receive s pckt now =
           Inr (dispatch
                 ((cache s (sipaddr (in_hdr pckt)) (shwaddr (in_hdr pckt)) now)
                    \<lparr>link_out := link_out s @ drained s (sipaddr (in_hdr pckt)) (shwaddr (in_hdr pckt)),
                     waiting_packets := map_erase (sipaddr (in_hdr pckt)) (waiting_packets s)\<rparr>)
                 (in_hdr pckt))"
proof -
  let ?ip = "sipaddr (in_hdr pckt)" and ?m = "shwaddr (in_hdr pckt)"
  let ?s1 = "cache s ?ip ?m now"
  have inv1: "arp_inv ?s1" using inv by (rule arp_inv_cache)
  have hit: "map_find (cache_map ?s1) ?ip = Some \<lparr>mac = ?m, timestamp = now\<rparr>"
    by (simp add: cache_lookup)
  have dr: "drained ?s1 ?ip ?m = drained s ?ip ?m" by (simp add: drained_def)
  show ?thesis
    unfolding receive_def Let_def
    by (simp add: ship_waiting_result [OF inv1 hit] dr)
qed

lemma arp_inv_receive:
  assumes "arp_inv s" and "receive s pckt now = Inr s'"
  shows "arp_inv s'"
proof -
  let ?ip = "sipaddr (in_hdr pckt)" and ?m = "shwaddr (in_hdr pckt)"
  have "arp_inv (cache s ?ip ?m now)" using assms(1) by (rule arp_inv_cache)
  then have "arp_inv ((cache s ?ip ?m now)
      \<lparr>link_out := link_out s @ drained s ?ip ?m,
       waiting_packets := map_erase ?ip (waiting_packets s)\<rparr>)"
    by (auto simp: arp_inv_def map_ok_erase map_find_erase list_all_map_erase
        map_erase_nonempty)
  then have "arp_inv (dispatch ((cache s ?ip ?m now)
      \<lparr>link_out := link_out s @ drained s ?ip ?m,
       waiting_packets := map_erase ?ip (waiting_packets s)\<rparr>) (in_hdr pckt))"
    by (simp only: arp_inv_dispatch)
  with assms show ?thesis
    by (simp add: receive_result)
qed

subsection \<open>The timer callbacks keep the invariant\<close>

lemma fold_arp_resolve_fields [simp]:
  "cache_map (fold (\<lambda>e s'. arp_resolve s' (fst e)) m s) = cache_map s"
  "waiting_packets (fold (\<lambda>e s'. arp_resolve s' (fst e)) m s) = waiting_packets s"
  "flush_timer (fold (\<lambda>e s'. arp_resolve s' (fst e)) m s) = flush_timer s"
  "requests_rx (fold (\<lambda>e s'. arp_resolve s' (fst e)) m s) = requests_rx s"
  "replies_rx (fold (\<lambda>e s'. arp_resolve s' (fst e)) m s) = replies_rx s"
  "replies_tx (fold (\<lambda>e s'. arp_resolve s' (fst e)) m s) = replies_tx s"
  "inet_ip_addr (fold (\<lambda>e s'. arp_resolve s' (fst e)) m s) = inet_ip_addr s"
  "mac_local (fold (\<lambda>e s'. arp_resolve s' (fst e)) m s) = mac_local s"
  by (induction m arbitrary: s; simp)+

lemma fold_arp_resolve_link_out:
  "link_out (fold (\<lambda>e s'. arp_resolve s' (fst e)) m s) =
     link_out s @ map (\<lambda>e. request_frame (mac_local s) (inet_ip_addr s) (fst e)) m"
  by (induction m arbitrary: s) simp_all

lemma resolve_waiting_fields [simp]:
  "cache_map (resolve_waiting s) = cache_map s"
  "waiting_packets (resolve_waiting s) = waiting_packets s"
  "flush_timer (resolve_waiting s) = flush_timer s"
  "resolve_timer (resolve_waiting s) = (waiting_packets s \<noteq> [])"
  by (simp_all add: resolve_waiting_def)

lemma resolve_waiting_link_out:
  "link_out (resolve_waiting s) =
     link_out s @ map (\<lambda>e. request_frame (mac_local s) (inet_ip_addr s) (fst e)) (waiting_packets s)"
  by (simp add: resolve_waiting_def fold_arp_resolve_link_out)

lemma arp_inv_resolve_timer_timeout: "arp_inv s \<Longrightarrow> arp_inv (resolve_timer_timeout s)"
  by (auto simp: arp_inv_def resolve_timer_timeout_def)

lemma fold_map_erase_ok: "map_ok m \<Longrightarrow> map_ok (fold map_erase ks m)"
  by (induction ks arbitrary: m) (simp_all add: map_ok_erase)

lemma flush_expired_fields [simp]:
  "waiting_packets (flush_expired s now) = waiting_packets s"
  "resolve_timer (flush_expired s now) = resolve_timer s"
  "link_out (flush_expired s now) = link_out s"
  by (simp_all add: flush_expired_def Let_def)

lemma arp_inv_flush_timer_timeout: "arp_inv s \<Longrightarrow> arp_inv (flush_timer_timeout s now)"
  by (auto simp: arp_inv_def flush_timer_timeout_def flush_expired_def Let_def
      fold_map_erase_ok map_ok_Nil)

lemma arp_inv_init: "arp_inv (Arp_init ip m interval)"
  by (simp add: arp_inv_def Arp_init_def map_ok_def map_keys_def map_find_def)

lemma arp_inv_step: "arp_inv s \<Longrightarrow> step s e = Inr s' \<Longrightarrow> arp_inv s'"
proof (cases e)
  case (Receive pckt now)
  assume "arp_inv s" "step s e = Inr s'"
  with Receive show ?thesis by (simp add: arp_inv_receive)
next
  case (Transmit p hop)
  assume "arp_inv s" "step s e = Inr s'"
  with Transmit show ?thesis by (simp add: arp_inv_transmit)
next
  case Resolve_timeout
  assume "arp_inv s" "step s e = Inr s'"
  with Resolve_timeout show ?thesis by (auto simp: arp_inv_resolve_timer_timeout)
next
  case (Flush_timeout now)
  assume "arp_inv s" "step s e = Inr s'"
  with Flush_timeout show ?thesis by (auto simp: arp_inv_flush_timer_timeout)
next
  case (Set_proxy f)
  assume "arp_inv s" "step s e = Inr s'"
  with Set_proxy show ?thesis by (auto simp: arp_inv_def)
next
  case (Set_ip a)
  assume "arp_inv s" "step s e = Inr s'"
  with Set_ip show ?thesis by (auto simp: arp_inv_def)
qed

lemma reachable_inv: "reachable s \<Longrightarrow> arp_inv s"
  by (induction rule: reachable.induct) (auto simp: arp_inv_init arp_inv_step)

lemma reachable_run: "reachable s \<Longrightarrow> run s evs = Inr s' \<Longrightarrow> reachable s'"
proof (induction evs arbitrary: s)
  case Nil
  then show ?case by simp
next
  case (Cons e evs)
  then show ?case
    by (auto split: sum.splits intro: reachable_step)
qed

subsection \<open>The example values\<close>

lemmas ex_defs = ex_local_ip_def ex_local_mac_def ex_peer_ip_def ex_peer_mac_def ex_p1_def
  ex_p2_def ex_init_def ex_pending_def ex_frame_def ex_answered_def ex_spoof_frame_def
  ex_spoofed_def

lemma ex_pending_transmit: "transmit ex_init ex_p1 ex_peer_ip = Inr ex_pending"
  by (simp add: ex_defs Arp_init_def transmit_def ADDR_BCAST_def map_find_def
      await_resolution_def arp_resolve_def Let_def linklayer_out_def request_frame_def
      packet_arp_init_def)

lemma ex_pending_run: "run ex_init [Transmit ex_p1 ex_peer_ip] = Inr ex_pending"
  by (simp add: ex_pending_transmit)

lemma ex_init_reachable: "reachable ex_init"
  unfolding ex_init_def by (rule reachable_init)

lemma ex_pending_reachable: "reachable ex_pending"
  using reachable_run [OF ex_init_reachable ex_pending_run] .

lemma ex_answered_run:
  "run ex_init [Transmit ex_p1 ex_peer_ip, Receive (ex_frame H_reply ex_local_ip) 5] =
     Inr ex_answered"
proof -
  have "receive ex_pending (ex_frame H_reply ex_local_ip) 5 = Inr ex_answered"
    by (simp add: ex_defs Arp_init_def receive_def cache_def ship_waiting_def transmit_def
        dispatch_def map_find_def map_erase_def new_entry_def linklayer_out_def Let_def
        ADDR_BCAST_def H_request_def H_reply_def request_frame_def)
  then show ?thesis by (simp add: ex_pending_transmit)
qed

lemma ex_answered_reachable: "reachable ex_answered"
  using reachable_run [OF ex_init_reachable ex_answered_run] .

subsection \<open>What receive hands to the link\<close>

lemma dispatch_link_out:
  "link_out (dispatch s h) =
     link_out s @
       (if opcode h = H_request \<and> dipaddr h = inet_ip_addr s
          then [reply_frame (mac_local s) (inet_ip_addr s) h]
        else if opcode h = H_request \<and> (case proxy s of None \<Rightarrow> False | Some f \<Rightarrow> f (dipaddr h))
          then [reply_frame (mac_local s) (dipaddr h) h]
        else [])"
  by (simp add: dispatch_def Let_def)

lemma dispatch_link_out_arp:
  "\<exists>rest. link_out (dispatch s h) = link_out s @ rest \<and> ip4_frames rest = []"
  by (simp add: dispatch_link_out ip4_frames_def reply_frame_def)

lemma transmit_waiting:
  assumes "psize p \<noteq> 0" and "hop \<noteq> ADDR_BCAST" and "map_find (cache_map s) hop = None"
  shows "transmit s p hop = Inr (await_resolution s p hop)"
  using assms by (simp add: transmit_def)

lemma resolve_timer_timeout_waiting [simp]:
  "waiting_packets (resolve_timer_timeout s) = waiting_packets s"
  by (simp add: resolve_timer_timeout_def)

lemma flush_timer_timeout_waiting [simp]:
  "waiting_packets (flush_timer_timeout s now) = waiting_packets s"
  by (simp add: flush_timer_timeout_def)

lemma dispatch_other:
  "opcode h \<noteq> H_request \<Longrightarrow> opcode h \<noteq> H_reply \<Longrightarrow> dispatch s h = s"
  by (simp add: dispatch_def)

lemma dispatch_request_counters:
  "opcode h = H_request \<Longrightarrow> requests_rx (dispatch s h) = requests_rx s + 1"
  "opcode h = H_request \<Longrightarrow> replies_rx (dispatch s h) = replies_rx s"
  "opcode h = H_request \<Longrightarrow>
     replies_tx (dispatch s h) =
       (if dipaddr h = inet_ip_addr s \<or> (case proxy s of None \<Rightarrow> False | Some f \<Rightarrow> f (dipaddr h))
        then replies_tx s + 1 else replies_tx s)"
  by (simp_all add: dispatch_def Let_def)

lemma map_ok_distinct: "map_ok m \<Longrightarrow> distinct (map_keys m)"
  by (simp add: map_ok_def strict_sorted_iff)

lemma cache_entries:
  assumes "map_ok (cache_map s)"
  shows "filter (\<lambda>x. fst x = ip) (cache_map (cache s ip m now)) =
           [(ip, \<lparr>mac = m, timestamp = now\<rparr>)]"
  using map_ok_entries [OF cache_map_ok [OF assms, of ip m now], of ip]
  by (simp add: cache_lookup)

lemma arp_inv_fold_cache:
  "arp_inv s \<Longrightarrow> arp_inv (fold (\<lambda>t s'. cache s' ip m t) ts s)"
  by (induction ts arbitrary: s) (simp_all add: arp_inv_cache)

lemma cache_cases:
  "cache s ip m now =
     (case map_find (cache_map s) ip of
        None \<Rightarrow> s\<lparr>cache_map := map_put ip \<lparr>mac = m, timestamp = now\<rparr> (cache_map s),
                  flush_timer := True\<rparr>
      | Some e \<Rightarrow>
          if mac e = m
          then s\<lparr>cache_map := map_put ip (e\<lparr>timestamp := now\<rparr>) (cache_map s)\<rparr>
          else s\<lparr>cache_map :=
                   map_put ip \<lparr>mac = m, timestamp = now\<rparr> (map_erase ip (cache_map s))\<rparr>)"
  by (simp add: cache_def Let_def new_entry_def update_def split: option.splits)

subsection \<open>Where cache entries come from\<close>

lemma cache_keys: "set (map_keys (cache_map (cache s ip m now))) = insert ip (set (map_keys (cache_map s)))"
  by (auto simp: cache_def Let_def map_keys_put map_keys_erase map_find_None_iff
      split: option.splits dest: map_find_in_set)

lemma transmit_cache_map: "transmit s p hop = Inr s' \<Longrightarrow> cache_map s' = cache_map s"
  by (auto simp: transmit_def linklayer_out_def split: if_splits option.splits)

lemma receive_cache_map:
  assumes "receive s pckt now = Inr s'"
  shows "cache_map s' = cache_map (cache s (sipaddr (in_hdr pckt)) (shwaddr (in_hdr pckt)) now)"
  using assms
  by (auto simp: receive_def ship_waiting_def Let_def
      split: sum.splits option.splits dest: transmit_cache_map)

lemma fold_map_erase_keys: "set (map_keys (fold map_erase ks m)) \<subseteq> set (map_keys m)"
proof (induction ks arbitrary: m)
  case Nil
  then show ?case by simp
next
  case (Cons k ks)
  have "set (map_keys (fold map_erase ks (map_erase k m))) \<subseteq> set (map_keys (map_erase k m))"
    by (rule Cons.IH)
  then show ?case by (auto simp: map_keys_erase)
qed

lemma flush_timer_timeout_keys:
  "set (map_keys (cache_map (flush_timer_timeout s now))) \<subseteq> set (map_keys (cache_map s))"
proof -
  let ?ks = "map fst (filter (\<lambda>ent. expired (snd ent) now (flush_interval s)) (cache_map s))"
  have "cache_map (flush_timer_timeout s now) = cache_map s \<or>
      cache_map (flush_timer_timeout s now) = fold map_erase ?ks (cache_map s)"
    by (simp add: flush_timer_timeout_def flush_expired_def Let_def)
  with fold_map_erase_keys [of ?ks "cache_map s"] show ?thesis by auto
qed

lemma resolve_timer_timeout_cache_map [simp]:
  "cache_map (resolve_timer_timeout s) = cache_map s"
  by (simp add: resolve_timer_timeout_def)

lemma step_cache_keys:
  assumes "step s e = Inr s'"
  shows "set (map_keys (cache_map s')) \<subseteq> set (map_keys (cache_map s)) \<union> set (senders [e])"
proof (cases e)
  case (Receive pckt now)
  with assms show ?thesis by (auto simp: cache_keys dest!: receive_cache_map)
next
  case (Transmit p hop)
  with assms show ?thesis by (auto dest: transmit_cache_map)
next
  case Resolve_timeout
  with assms show ?thesis by auto
next
  case (Flush_timeout now)
  with assms flush_timer_timeout_keys [of s now] show ?thesis by auto
next
  case (Set_proxy f)
  with assms show ?thesis by auto
next
  case (Set_ip a)
  with assms show ?thesis by auto
qed

lemma senders_Cons: "set (senders (e # es)) = set (senders [e]) \<union> set (senders es)"
  by (cases e) auto

lemma run_cache_keys:
  "run s evs = Inr s' \<Longrightarrow>
     set (map_keys (cache_map s')) \<subseteq> set (map_keys (cache_map s)) \<union> set (senders evs)"
proof (induction evs arbitrary: s)
  case Nil
  then show ?case by simp
next
  case (Cons e evs)
  from Cons.prems obtain s1 where s1: "step s e = Inr s1" "run s1 evs = Inr s'"
    by (auto split: sum.splits)
  from step_cache_keys [OF s1(1)] Cons.IH [OF s1(2)] show ?case
    unfolding senders_Cons [of e evs] by blast
qed

lemma ex_spoofed_run:
  "run ex_init [Receive (ex_spoof_frame ex_local_ip) 5, Receive (ex_spoof_frame ADDR_BCAST) 6] =
     Inr ex_spoofed"
  by (simp add: ex_defs Arp_init_def receive_def cache_def ship_waiting_def
      dispatch_def map_find_def new_entry_def Let_def ADDR_BCAST_def H_request_def H_reply_def)

lemma ex_spoofed_reachable: "reachable ex_spoofed"
  using reachable_run [OF ex_init_reachable ex_spoofed_run] .

subsection \<open>Counting requests\<close>

lemma arp_requests_for_append:
  "arp_requests_for ip (xs @ ys) = arp_requests_for ip xs + arp_requests_for ip ys"
  by (simp add: arp_requests_for_def)

lemma is_arp_request_for_request_frame:
  "is_arp_request_for ip (request_frame m a k) = (k = ip)"
  by (simp add: is_arp_request_for_def request_frame_def)

lemma arp_requests_for_sweep:
  "arp_requests_for ip (map (\<lambda>e. request_frame m a (fst e)) w) =
     length (filter (\<lambda>e. fst e = ip) w)"
  by (induction w) (simp_all add: arp_requests_for_def is_arp_request_for_request_frame)

lemma ip4_frames_sweep: "ip4_frames (map (\<lambda>e. request_frame m a (fst e)) w) = []"
  by (induction w) (simp_all add: ip4_frames_def request_frame_def)

lemma sweep_count:
  assumes "map_ok w"
  shows "arp_requests_for ip (map (\<lambda>e. request_frame m a (fst e)) w) =
           (case map_find w ip of None \<Rightarrow> 0 | Some q \<Rightarrow> 1)"
  by (simp add: arp_requests_for_sweep map_ok_entries [OF assms] split: option.splits)

lemma arp_requests_for_first:
  "arp_requests_for ip (request_frame m a ip # xs) = Suc (arp_requests_for ip xs)"
  by (simp add: arp_requests_for_def is_arp_request_for_request_frame)

lemma ip4_frames_first: "ip4_frames (request_frame m a k # xs) = ip4_frames xs"
  by (simp add: ip4_frames_def request_frame_def)

lemma ip4_frames_append: "ip4_frames (xs @ ys) = ip4_frames xs @ ip4_frames ys"
  by (simp add: ip4_frames_def)

text \<open>One expiry of the resolve timer, seen from one address.\<close>

lemma resolve_timer_timeout_effect:
  assumes inv: "arp_inv s"
  shows "\<exists>new. link_out (resolve_timer_timeout s) = link_out s @ new \<and>
           ip4_frames new = [] \<and>
           (map_find (waiting_packets s) ip = None \<longrightarrow> arp_requests_for ip new = 0) \<and>
           (map_find (waiting_packets s) ip \<noteq> None \<longrightarrow> arp_requests_for ip new = 1)"
proof (cases "resolve_timer s")
  case True
  let ?new = "map (\<lambda>e. request_frame (mac_local s) (inet_ip_addr s) (fst e)) (waiting_packets s)"
  from inv have ok: "map_ok (waiting_packets s)" by (simp add: arp_inv_def)
  from True have "link_out (resolve_timer_timeout s) = link_out s @ ?new"
    by (simp add: resolve_timer_timeout_def resolve_waiting_link_out)
  moreover have "ip4_frames ?new = []" by (rule ip4_frames_sweep)
  moreover have "arp_requests_for ip ?new =
      (case map_find (waiting_packets s) ip of None \<Rightarrow> 0 | Some q \<Rightarrow> 1)"
    using ok by (rule sweep_count)
  ultimately show ?thesis by (auto split: option.splits)
next
  case False
  with inv have "waiting_packets s = []" by (auto simp: arp_inv_def)
  with False show ?thesis
    by (simp add: resolve_timer_timeout_def ip4_frames_def arp_requests_for_def map_find_def)
qed

lemma resolve_timer_timeout_cache [simp]:
  "map_find (cache_map (resolve_timer_timeout s)) ip = map_find (cache_map s) ip"
  by (simp add: resolve_timer_timeout_def)

text \<open>While a chain waits for the address: one request for each expiry.\<close>

lemma waiting_run:
  assumes "arp_inv s" and "ip \<noteq> ADDR_BCAST" and "map_find (cache_map s) ip = None"
    and "map_find (waiting_packets s) ip \<noteq> None" and "list_all (tx_or_tick ip) evs"
  shows "\<exists>s' new. run s evs = Inr s' \<and> link_out s' = link_out s @ new \<and>
           arp_requests_for ip new = ticks evs \<and> ip4_frames new = []"
  using assms
proof (induction evs arbitrary: s)
  case Nil
  then show ?case by (simp add: arp_requests_for_def ip4_frames_def)
next
  case (Cons e evs)
  from Cons.prems(5) have e: "tx_or_tick ip e" and evs: "list_all (tx_or_tick ip) evs"
    by simp_all
  show ?case
  proof (cases e)
    case (Transmit p hop)
    with e have hop: "hop = ip" and sz: "psize p \<noteq> 0" by simp_all
    let ?s1 = "await_resolution s p ip"
    have st: "transmit s p ip = Inr ?s1"
      using sz Cons.prems(2,3) by (rule transmit_waiting)
    have inv1: "arp_inv ?s1"
      using Cons.prems(1) sz Cons.prems(2) by (rule arp_inv_await_resolution)
    have c1: "map_find (cache_map ?s1) ip = None" using Cons.prems(3) by simp
    have w1: "map_find (waiting_packets ?s1) ip \<noteq> None"
      by (simp add: await_resolution_waiting map_find_put)
    have l1: "link_out ?s1 = link_out s"
      using Cons.prems(4) by (auto simp: await_resolution_link_out)
    from Cons.IH [OF inv1 Cons.prems(2) c1 w1 evs] l1 st Transmit hop
    show ?thesis by simp
  next
    case Resolve_timeout
    let ?s1 = "resolve_timer_timeout s"
    have inv1: "arp_inv ?s1"
      using Cons.prems(1) by (rule arp_inv_resolve_timer_timeout)
    have c1: "map_find (cache_map ?s1) ip = None" using Cons.prems(3) by simp
    have w1: "map_find (waiting_packets ?s1) ip \<noteq> None" using Cons.prems(4) by simp
    from resolve_timer_timeout_effect [OF Cons.prems(1), of ip] Cons.prems(4)
    obtain new1 where n1: "link_out ?s1 = link_out s @ new1" "ip4_frames new1 = []"
      "arp_requests_for ip new1 = 1"
      by blast
    from Cons.IH [OF inv1 Cons.prems(2) c1 w1 evs]
    obtain s' new where n: "run ?s1 evs = Inr s'" "link_out s' = link_out ?s1 @ new"
      "arp_requests_for ip new = ticks evs" "ip4_frames new = []"
      by blast
    from n1 n have "link_out s' = link_out s @ (new1 @ new)"
      "arp_requests_for ip (new1 @ new) = Suc (ticks evs)" "ip4_frames (new1 @ new) = []"
      by (simp_all add: arp_requests_for_append ip4_frames_def)
    with n(1) Resolve_timeout show ?thesis by auto
  next
    case (Receive pckt now)
    with e show ?thesis by simp
  next
    case (Flush_timeout now)
    with e show ?thesis by simp
  next
    case (Set_proxy f)
    with e show ?thesis by simp
  next
    case (Set_ip a)
    with e show ?thesis by simp
  qed
qed

subsection \<open>How the waiting map changes\<close>

lemma transmit_cases_waiting:
  assumes "transmit s p hop = Inr s'"
  shows "waiting_packets s' =
           (if hop \<noteq> ADDR_BCAST \<and> map_find (cache_map s) hop = None
            then map_put hop (case map_find (waiting_packets s) hop of
                                None \<Rightarrow> p | Some q \<Rightarrow> chain q p) (waiting_packets s)
            else waiting_packets s)"
  using assms
  by (auto simp: transmit_def linklayer_out_def await_resolution_waiting
      split: if_splits option.splits)

lemma receive_waiting:
  assumes "arp_inv s" and "receive s pckt now = Inr s'"
  shows "waiting_packets s' = map_erase (sipaddr (in_hdr pckt)) (waiting_packets s)"
  using assms(2) by (auto simp: receive_result [OF assms(1)])

lemma step_untouched:
  assumes "arp_inv s" and "step s e = Inr s'" and "untouched k s e"
  shows "map_find (waiting_packets s') k = map_find (waiting_packets s) k"
proof (cases e)
  case (Receive pckt now)
  with assms show ?thesis by (auto simp: receive_waiting map_find_erase)
next
  case (Transmit p hop)
  with assms show ?thesis by (auto simp: map_find_put dest!: transmit_cases_waiting)
next
  case Resolve_timeout
  with assms show ?thesis by auto
next
  case (Flush_timeout now)
  with assms show ?thesis by auto
next
  case (Set_proxy f)
  with assms show ?thesis by auto
next
  case (Set_ip a)
  with assms show ?thesis by auto
qed

lemma step_waiting_buffers:
  assumes "arp_inv s" and "step s e = Inr s'"
  shows "waiting_buffers s' k = queue_after k s e (waiting_buffers s k)"
proof (cases e)
  case (Receive pckt now)
  with assms show ?thesis
    by (auto simp: waiting_buffers_def receive_waiting map_find_erase)
next
  case (Transmit p hop)
  with assms(2) have t: "transmit s p hop = Inr s'" by simp
  show ?thesis
  proof (cases "hop \<noteq> ADDR_BCAST \<and> map_find (cache_map s) hop = None")
    case True
    with transmit_cases_waiting [OF t]
    have "map_find (waiting_packets s') k =
        (if k = hop
         then Some (case map_find (waiting_packets s) hop of None \<Rightarrow> p | Some q \<Rightarrow> chain q p)
         else map_find (waiting_packets s) k)"
      by (simp add: map_find_put)
    with True Transmit show ?thesis
      by (auto simp: waiting_buffers_def buffers_chain split: option.splits)
  next
    case False
    with transmit_cases_waiting [OF t] have "waiting_packets s' = waiting_packets s"
      by auto
    with False Transmit show ?thesis
      by (auto simp: waiting_buffers_def)
  qed
next
  case Resolve_timeout
  with assms show ?thesis by (auto simp: waiting_buffers_def)
next
  case (Flush_timeout now)
  with assms show ?thesis by (auto simp: waiting_buffers_def)
next
  case (Set_proxy f)
  with assms show ?thesis by (auto simp: waiting_buffers_def)
next
  case (Set_ip a)
  with assms show ?thesis by (auto simp: waiting_buffers_def)
qed

lemma receive_returns: "arp_inv s \<Longrightarrow> \<exists>s'. receive s pckt now = Inr s'"
  by (simp add: receive_result)

lemma run_waiting_buffers:
  "arp_inv s \<Longrightarrow> run s evs = Inr s' \<Longrightarrow>
     waiting_buffers s' k = queued k s evs (waiting_buffers s k)"
proof (induction evs arbitrary: s)
  case Nil
  then show ?case by simp
next
  case (Cons e evs)
  from Cons.prems(2) obtain s1 where s1: "step s e = Inr s1" "run s1 evs = Inr s'"
    by (auto split: sum.splits)
  from Cons.prems(1) s1(1) have inv1: "arp_inv s1" by (rule arp_inv_step)
  from Cons.IH [OF inv1 s1(2)] step_waiting_buffers [OF Cons.prems(1) s1(1), of k] s1(1)
  show ?case by simp
qed


lemma receive_ships_chain:
  assumes inv: "arp_inv s"
    and q: "map_find (waiting_packets s) (sipaddr (in_hdr pckt)) = Some q"
  shows "\<exists>s' rest. receive s pckt now = Inr s' \<and>
      link_out s' = link_out s @ Tx (Ip_chain q) (shwaddr (in_hdr pckt)) ETH_IP4 # rest \<and>
      ip4_frames rest = [] \<and> map_find (waiting_packets s') (sipaddr (in_hdr pckt)) = None"
proof -
  let ?ip = "sipaddr (in_hdr pckt)" and ?m = "shwaddr (in_hdr pckt)"
  let ?s2 = "(cache s ?ip ?m now)
      \<lparr>link_out := link_out s @ drained s ?ip ?m,
       waiting_packets := map_erase ?ip (waiting_packets s)\<rparr>"
  obtain rest where rest: "link_out (dispatch ?s2 (in_hdr pckt)) = link_out ?s2 @ rest"
    "ip4_frames rest = []"
    using dispatch_link_out_arp [of ?s2 "in_hdr pckt"] by blast
  from q have "drained s ?ip ?m = [Tx (Ip_chain q) ?m ETH_IP4]"
    by (simp add: drained_def)
  with rest have "link_out (dispatch ?s2 (in_hdr pckt)) =
      link_out s @ Tx (Ip_chain q) ?m ETH_IP4 # rest"
    by simp
  moreover have "map_find (waiting_packets (dispatch ?s2 (in_hdr pckt))) ?ip = None"
    by (simp add: map_find_erase)
  ultimately show ?thesis
    using rest(2) receive_result [OF inv, of pckt now] by blast
qed

lemma buffers_nonempty: "buffers q \<noteq> []"
  by (cases q rule: buffers.cases) simp_all

lemma waiting_buffers_Some:
  "waiting_buffers s k \<noteq> [] \<Longrightarrow>
     \<exists>q. map_find (waiting_packets s) k = Some q \<and> buffers q = waiting_buffers s k"
  by (auto simp: waiting_buffers_def split: option.splits)

lemma ex_other_run:
  "\<exists>s'. run ex_init ex_run = Inr s'"
  by (simp add: ex_defs ex_run_def ex_other_ip_def ex_other_frame_def Arp_init_def transmit_def
      ADDR_BCAST_def map_find_def await_resolution_def arp_resolve_def Let_def
      linklayer_out_def packet_arp_init_def receive_def cache_def ship_waiting_def
      dispatch_def map_erase_def new_entry_def H_request_def H_reply_def)

lemma ex_other_queued:
  "queued ex_peer_ip ex_init ex_run (waiting_buffers ex_init ex_peer_ip) = [(100, 1), (60, 2)]"
  by (simp add: ex_defs ex_run_def ex_other_ip_def ex_other_frame_def Arp_init_def transmit_def
      ADDR_BCAST_def map_find_def await_resolution_def arp_resolve_def Let_def
      linklayer_out_def packet_arp_init_def receive_def cache_def ship_waiting_def
      dispatch_def map_erase_def new_entry_def H_request_def H_reply_def waiting_buffers_def)

section \<open>The claims\<close>

text \<open>
  C1. Every inbound frame is learned: from a reachable object \<^verbatim>\<open>receive\<close> returns, and
  in the object it returns a lookup of the frame's sender IPv4 address gives the
  frame's sender MAC address (stamped with the time of the call). The cache after
  \<^verbatim>\<open>receive\<close> is the cache after the learning step, whatever the opcode is: the
  steps that follow do not touch it.
\<close>

theorem receive_learns_sender:
  assumes "reachable s"
  shows "\<exists>s'. receive s pckt now = Inr s' \<and>
           map_find (cache_map s') (sipaddr (in_hdr pckt)) =
             Some \<lparr>mac = shwaddr (in_hdr pckt), timestamp = now\<rparr> \<and>
           cache_map s' =
             cache_map (cache s (sipaddr (in_hdr pckt)) (shwaddr (in_hdr pckt)) now)"
proof -
  from assms have "arp_inv s" by (rule reachable_inv)
  then show ?thesis
    by (simp add: receive_result cache_lookup)
qed

text \<open>An instance: a frame with the unknown opcode 7 from the peer.\<close>

theorem receive_learns_sender_witness:
  "reachable ex_pending \<and>
   (\<exists>s'. receive ex_pending (ex_frame 7 ex_local_ip) 42 = Inr s' \<and>
      map_find (cache_map s') ex_peer_ip = Some \<lparr>mac = ex_peer_mac, timestamp = 42\<rparr>)"
  using receive_learns_sender [OF ex_pending_reachable, of "ex_frame 7 ex_local_ip" 42]
    ex_pending_reachable
  by (auto simp: ex_frame_def)

text \<open>
  C2. When \<^verbatim>\<open>receive\<close> processes a frame, of any opcode, whose sender has a chain
  waiting, the chain is handed to the link in one call, with the frame's sender MAC
  address as destination and Ethertype IPv4, before anything else is sent, and the
  entry of the sender leaves the waiting map. The chain holds the packets in the order
  of their enqueueing: a transmit that misses the cache appends the buffers of its
  packet after those that wait already. The two timer callbacks leave the waiting map
  as it is, and so does every event for the chains of other addresses: a frame from
  another sender, a transmit to another next hop or one that hits the cache. Hence
  after any run the buffers that wait for an address are those transmitted to it on a
  cache miss since the last frame from it, in that order, and the next frame from the
  address hands exactly these to the link.
\<close>

theorem waiting_chain_shipped:
  assumes "reachable s"
  shows "(\<forall>q. map_find (waiting_packets s) (sipaddr (in_hdr pckt)) = Some q \<longrightarrow>
            (\<exists>s' rest. receive s pckt now = Inr s' \<and>
               link_out s' =
                 link_out s @ Tx (Ip_chain q) (shwaddr (in_hdr pckt)) ETH_IP4 # rest \<and>
               ip4_frames rest = [] \<and>
               map_find (waiting_packets s') (sipaddr (in_hdr pckt)) = None)) \<and>
         (\<forall>p hop. psize p \<noteq> 0 \<and> hop \<noteq> ADDR_BCAST \<and> map_find (cache_map s) hop = None \<longrightarrow>
            (\<exists>s' q'. transmit s p hop = Inr s' \<and>
               map_find (waiting_packets s') hop = Some q' \<and>
               buffers q' =
                 (case map_find (waiting_packets s) hop of
                    None \<Rightarrow> []
                  | Some q \<Rightarrow> buffers q) @ buffers p)) \<and>
         waiting_packets (resolve_timer_timeout s) = waiting_packets s \<and>
         waiting_packets (flush_timer_timeout s t) = waiting_packets s \<and>
         (\<forall>e s' k. step s e = Inr s' \<and> untouched k s e \<longrightarrow>
            map_find (waiting_packets s') k = map_find (waiting_packets s) k) \<and>
         (\<forall>evs s' k. run s evs = Inr s' \<longrightarrow>
            waiting_buffers s' k = queued k s evs (waiting_buffers s k)) \<and>
         (\<forall>evs s1.
            run s evs = Inr s1 \<and>
            queued (sipaddr (in_hdr pckt)) s evs (waiting_buffers s (sipaddr (in_hdr pckt))) \<noteq> [] \<longrightarrow>
            (\<exists>s' q rest. receive s1 pckt now = Inr s' \<and>
               link_out s' =
                 link_out s1 @ Tx (Ip_chain q) (shwaddr (in_hdr pckt)) ETH_IP4 # rest \<and>
               buffers q =
                 queued (sipaddr (in_hdr pckt)) s evs (waiting_buffers s (sipaddr (in_hdr pckt))) \<and>
               ip4_frames rest = [] \<and>
               waiting_buffers s' (sipaddr (in_hdr pckt)) = []))"
proof -
  from assms have inv: "arp_inv s" by (rule reachable_inv)
  let ?ip = "sipaddr (in_hdr pckt)" and ?m = "shwaddr (in_hdr pckt)"
  have ship: "\<exists>s' rest. receive s pckt now = Inr s' \<and>
      link_out s' = link_out s @ Tx (Ip_chain q) ?m ETH_IP4 # rest \<and>
      ip4_frames rest = [] \<and> map_find (waiting_packets s') ?ip = None"
    if q: "map_find (waiting_packets s) ?ip = Some q" for q
    using inv q by (rule receive_ships_chain)
  have enq: "\<exists>s' q'. transmit s p hop = Inr s' \<and>
      map_find (waiting_packets s') hop = Some q' \<and>
      buffers q' = (case map_find (waiting_packets s) hop of None \<Rightarrow> [] | Some q \<Rightarrow> buffers q)
                     @ buffers p"
    if "psize p \<noteq> 0" "hop \<noteq> ADDR_BCAST" "map_find (cache_map s) hop = None" for p hop
    using that
    by (simp add: transmit_waiting await_resolution_waiting map_find_put buffers_chain
        split: option.splits)
  have frame: "\<forall>e s' k. step s e = Inr s' \<and> untouched k s e \<longrightarrow>
      map_find (waiting_packets s') k = map_find (waiting_packets s) k"
    using inv by (blast intro: step_untouched)
  have runs: "\<forall>evs s' k. run s evs = Inr s' \<longrightarrow>
      waiting_buffers s' k = queued k s evs (waiting_buffers s k)"
    using inv by (blast intro: run_waiting_buffers)
  from ship have a: "\<forall>q. map_find (waiting_packets s) ?ip = Some q \<longrightarrow>
            (\<exists>s' rest. receive s pckt now = Inr s' \<and>
               link_out s' = link_out s @ Tx (Ip_chain q) ?m ETH_IP4 # rest \<and>
               ip4_frames rest = [] \<and>
               map_find (waiting_packets s') ?ip = None)"
    by simp
  from enq have b: "\<forall>p hop. psize p \<noteq> 0 \<and> hop \<noteq> ADDR_BCAST \<and>
            map_find (cache_map s) hop = None \<longrightarrow>
            (\<exists>s' q'. transmit s p hop = Inr s' \<and>
               map_find (waiting_packets s') hop = Some q' \<and>
               buffers q' =
                 (case map_find (waiting_packets s) hop of
                    None \<Rightarrow> []
                  | Some q \<Rightarrow> buffers q) @ buffers p)"
    by simp
  have ends: "\<exists>s' q rest. receive s1 pckt now = Inr s' \<and>
      link_out s' = link_out s1 @ Tx (Ip_chain q) ?m ETH_IP4 # rest \<and>
      buffers q = queued ?ip s evs (waiting_buffers s ?ip) \<and>
      ip4_frames rest = [] \<and> waiting_buffers s' ?ip = []"
    if r: "run s evs = Inr s1" and ne: "queued ?ip s evs (waiting_buffers s ?ip) \<noteq> []"
    for evs s1
  proof -
    from assms r have "reachable s1" by (rule reachable_run)
    then have inv1: "arp_inv s1" by (rule reachable_inv)
    from inv r have wb: "waiting_buffers s1 ?ip = queued ?ip s evs (waiting_buffers s ?ip)"
      by (rule run_waiting_buffers)
    with ne waiting_buffers_Some [of s1 ?ip]
    obtain q where q: "map_find (waiting_packets s1) ?ip = Some q"
      "buffers q = queued ?ip s evs (waiting_buffers s ?ip)"
      by auto
    from receive_ships_chain [OF inv1 q(1), of now]
    obtain s' rest where "receive s1 pckt now = Inr s'"
      "link_out s' = link_out s1 @ Tx (Ip_chain q) ?m ETH_IP4 # rest"
      "ip4_frames rest = []" "map_find (waiting_packets s') ?ip = None"
      by blast
    with q(2) show ?thesis
      by (auto simp: waiting_buffers_def)
  qed
  then have c: "\<forall>evs s1. run s evs = Inr s1 \<and>
      queued ?ip s evs (waiting_buffers s ?ip) \<noteq> [] \<longrightarrow>
      (\<exists>s' q rest. receive s1 pckt now = Inr s' \<and>
         link_out s' = link_out s1 @ Tx (Ip_chain q) ?m ETH_IP4 # rest \<and>
         buffers q = queued ?ip s evs (waiting_buffers s ?ip) \<and>
         ip4_frames rest = [] \<and> waiting_buffers s' ?ip = [])"
    by blast
  show ?thesis
    by (intro conjI a b c frame runs resolve_timer_timeout_waiting flush_timer_timeout_waiting)
qed

text \<open>
  An instance: a packet waits for the peer while another peer is served, a second
  packet follows, and the peer's frame releases both in order.
\<close>

theorem waiting_chain_shipped_witness:
  "reachable ex_pending \<and>
   map_find (waiting_packets ex_pending) ex_peer_ip = Some ex_p1 \<and>
   (\<exists>s' rest. receive ex_pending (ex_frame H_reply ex_local_ip) 5 = Inr s' \<and>
      link_out s' = link_out ex_pending @ Tx (Ip_chain ex_p1) ex_peer_mac ETH_IP4 # rest \<and>
      ip4_frames rest = [] \<and> map_find (waiting_packets s') ex_peer_ip = None) \<and>
   psize ex_p2 \<noteq> 0 \<and> ex_peer_ip \<noteq> ADDR_BCAST \<and>
   map_find (cache_map ex_pending) ex_peer_ip = None \<and>
   (\<exists>s' q'. transmit ex_pending ex_p2 ex_peer_ip = Inr s' \<and>
      map_find (waiting_packets s') ex_peer_ip = Some q' \<and>
      buffers q' = [(100, 1), (60, 2)]) \<and>
   untouched ex_peer_ip ex_pending (Receive ex_other_frame 5) \<and>
   (\<exists>s'. step ex_pending (Receive ex_other_frame 5) = Inr s' \<and>
      map_find (waiting_packets s') ex_peer_ip = Some ex_p1) \<and>
   reachable ex_init \<and>
   (\<exists>s'. run ex_init ex_run = Inr s' \<and>
      waiting_buffers s' ex_peer_ip = [(100, 1), (60, 2)] \<and>
      (\<exists>s'' q rest. receive s' (ex_frame H_reply ex_local_ip) 9 = Inr s'' \<and>
         link_out s'' = link_out s' @ Tx (Ip_chain q) ex_peer_mac ETH_IP4 # rest \<and>
         buffers q = [(100, 1), (60, 2)] \<and> ip4_frames rest = [] \<and>
         waiting_buffers s'' ex_peer_ip = []))"
proof -
  have w: "map_find (waiting_packets ex_pending) ex_peer_ip = Some ex_p1"
    by (simp add: ex_defs map_find_def)
  have h: "psize ex_p2 \<noteq> 0 \<and> ex_peer_ip \<noteq> ADDR_BCAST \<and>
      map_find (cache_map ex_pending) ex_peer_ip = None"
    by (simp add: ex_defs ADDR_BCAST_def map_find_def Arp_init_def)
  have b: "buffers ex_p1 @ buffers ex_p2 = [(100, 1), (60, 2)]"
    by (simp add: ex_defs)
  note inst = waiting_chain_shipped [OF ex_pending_reachable,
      of "ex_frame H_reply ex_local_ip" 5 0]
  from inst w have r: "\<exists>s' rest. receive ex_pending (ex_frame H_reply ex_local_ip) 5 = Inr s' \<and>
      link_out s' = link_out ex_pending @ Tx (Ip_chain ex_p1) ex_peer_mac ETH_IP4 # rest \<and>
      ip4_frames rest = [] \<and> map_find (waiting_packets s') ex_peer_ip = None"
    by (simp add: ex_frame_def)
  from inst have "psize ex_p2 \<noteq> 0 \<and> ex_peer_ip \<noteq> ADDR_BCAST \<and>
      map_find (cache_map ex_pending) ex_peer_ip = None \<longrightarrow>
      (\<exists>s' q'. transmit ex_pending ex_p2 ex_peer_ip = Inr s' \<and>
         map_find (waiting_packets s') ex_peer_ip = Some q' \<and>
         buffers q' =
           (case map_find (waiting_packets ex_pending) ex_peer_ip of
              None \<Rightarrow> []
            | Some q \<Rightarrow> buffers q) @ buffers ex_p2)"
    by blast
  with h w b have e: "\<exists>s' q'. transmit ex_pending ex_p2 ex_peer_ip = Inr s' \<and>
      map_find (waiting_packets s') ex_peer_ip = Some q' \<and> buffers q' = [(100, 1), (60, 2)]"
    by simp
  have u: "untouched ex_peer_ip ex_pending (Receive ex_other_frame 5)"
    by (simp add: ex_other_frame_def ex_other_ip_def ex_peer_ip_def)
  from receive_returns [OF reachable_inv [OF ex_pending_reachable], of ex_other_frame 5]
  obtain s1 where s1: "step ex_pending (Receive ex_other_frame 5) = Inr s1"
    by auto
  from inst s1 u have "map_find (waiting_packets s1) ex_peer_ip =
      map_find (waiting_packets ex_pending) ex_peer_ip"
    by blast
  with s1 w have f: "\<exists>s'. step ex_pending (Receive ex_other_frame 5) = Inr s' \<and>
      map_find (waiting_packets s') ex_peer_ip = Some ex_p1"
    by auto
  from ex_other_run obtain s2 where s2: "run ex_init ex_run = Inr s2"
    by blast
  note inst0 = waiting_chain_shipped [OF ex_init_reachable,
      of "ex_frame H_reply ex_local_ip" 9 0]
  from inst0 s2
  have wb: "waiting_buffers s2 ex_peer_ip =
      queued ex_peer_ip ex_init ex_run (waiting_buffers ex_init ex_peer_ip)"
    by blast
  have sp: "sipaddr (in_hdr (ex_frame H_reply ex_local_ip)) = ex_peer_ip"
    "shwaddr (in_hdr (ex_frame H_reply ex_local_ip)) = ex_peer_mac"
    by (simp_all add: ex_frame_def)
  from inst0 [unfolded sp]
  have "run ex_init ex_run = Inr s2 \<and>
      queued ex_peer_ip ex_init ex_run (waiting_buffers ex_init ex_peer_ip) \<noteq> [] \<longrightarrow>
      (\<exists>s'' q rest. receive s2 (ex_frame H_reply ex_local_ip) 9 = Inr s'' \<and>
         link_out s'' = link_out s2 @ Tx (Ip_chain q) ex_peer_mac ETH_IP4 # rest \<and>
         buffers q = queued ex_peer_ip ex_init ex_run (waiting_buffers ex_init ex_peer_ip) \<and>
         ip4_frames rest = [] \<and> waiting_buffers s'' ex_peer_ip = [])"
    by blast
  with s2 ex_other_queued
  have "\<exists>s'' q rest. receive s2 (ex_frame H_reply ex_local_ip) 9 = Inr s'' \<and>
      link_out s'' = link_out s2 @ Tx (Ip_chain q) ex_peer_mac ETH_IP4 # rest \<and>
      buffers q = [(100, 1), (60, 2)] \<and> ip4_frames rest = [] \<and>
      waiting_buffers s'' ex_peer_ip = []"
    by simp
  with s2 wb ex_other_queued have g: "\<exists>s'. run ex_init ex_run = Inr s' \<and>
      waiting_buffers s' ex_peer_ip = [(100, 1), (60, 2)] \<and>
      (\<exists>s'' q rest. receive s' (ex_frame H_reply ex_local_ip) 9 = Inr s'' \<and>
         link_out s'' = link_out s' @ Tx (Ip_chain q) ex_peer_mac ETH_IP4 # rest \<and>
         buffers q = [(100, 1), (60, 2)] \<and> ip4_frames rest = [] \<and>
         waiting_buffers s'' ex_peer_ip = [])"
    by auto
  from ex_pending_reachable ex_init_reachable w r h e u f g show ?thesis by blast
qed

text \<open>
  C3 (amended). \<^verbatim>\<open>transmit\<close> by cases. A packet of size zero is a contract violation.
  Otherwise: to the broadcast address, the packet goes to the link once, to the
  broadcast MAC address with Ethertype IPv4, and nothing else changes; on a cache hit
  it goes to the link once, to the cached MAC address with Ethertype IPv4; on a cache
  miss with nothing waiting for the next hop, the packet becomes the waiting chain, one
  ARP request for the next hop is broadcast, \<^verbatim>\<open>requests_tx\<close> is incremented and the
  resolve timer is started; on a cache miss with a chain already waiting, the packet
  is appended to that chain and nothing else changes. No cache miss sends an IPv4
  frame.
\<close>

theorem transmit_cases:
  "(psize p = 0 \<longrightarrow> transmit s p hop = Inl Contract_violation) \<and>
   (psize p \<noteq> 0 \<and> hop = ADDR_BCAST \<longrightarrow>
      transmit s p hop =
        Inr (s\<lparr>link_out := link_out s @ [Tx (Ip_chain p) MAC_BROADCAST ETH_IP4]\<rparr>)) \<and>
   (\<forall>e. psize p \<noteq> 0 \<and> hop \<noteq> ADDR_BCAST \<and> map_find (cache_map s) hop = Some e \<longrightarrow>
      transmit s p hop =
        Inr (s\<lparr>link_out := link_out s @ [Tx (Ip_chain p) (mac e) ETH_IP4]\<rparr>)) \<and>
   (psize p \<noteq> 0 \<and> hop \<noteq> ADDR_BCAST \<and> map_find (cache_map s) hop = None \<and>
    map_find (waiting_packets s) hop = None \<longrightarrow>
      transmit s p hop =
        Inr (s\<lparr>waiting_packets := map_put hop p (waiting_packets s),
               requests_tx := requests_tx s + 1,
               link_out := link_out s @ [request_frame (mac_local s) (inet_ip_addr s) hop],
               resolve_timer := True\<rparr>)) \<and>
   (\<forall>q. psize p \<noteq> 0 \<and> hop \<noteq> ADDR_BCAST \<and> map_find (cache_map s) hop = None \<and>
        map_find (waiting_packets s) hop = Some q \<longrightarrow>
      transmit s p hop =
        Inr (s\<lparr>waiting_packets := map_put hop (chain q p) (waiting_packets s)\<rparr>))"
  by (simp add: transmit_def linklayer_out_def await_resolution_def arp_resolve_def Let_def
      request_frame_def packet_arp_init_def)

theorem transmit_cases_witness:
  "transmit ex_init (Packet 0 9 None) ex_peer_ip = Inl Contract_violation \<and>
   transmit ex_init ex_p1 ADDR_BCAST =
     Inr (ex_init\<lparr>link_out := [Tx (Ip_chain ex_p1) MAC_BROADCAST ETH_IP4]\<rparr>) \<and>
   transmit ex_answered ex_p2 ex_peer_ip =
     Inr (ex_answered\<lparr>link_out := link_out ex_answered @
                          [Tx (Ip_chain ex_p2) ex_peer_mac ETH_IP4]\<rparr>) \<and>
   transmit ex_init ex_p1 ex_peer_ip = Inr ex_pending \<and>
   transmit ex_pending ex_p2 ex_peer_ip =
     Inr (ex_pending\<lparr>waiting_packets := [(ex_peer_ip, Packet 100 1 (Some ex_p2))]\<rparr>)"
proof -
  have nb: "ex_peer_ip \<noteq> ADDR_BCAST" by (simp add: ex_defs ADDR_BCAST_def)
  have a: "transmit ex_init (Packet 0 9 None) ex_peer_ip = Inl Contract_violation"
    using transmit_cases [of "Packet 0 9 None" ex_init ex_peer_ip] by simp
  have b: "transmit ex_init ex_p1 ADDR_BCAST =
      Inr (ex_init\<lparr>link_out := [Tx (Ip_chain ex_p1) MAC_BROADCAST ETH_IP4]\<rparr>)"
    using transmit_cases [of ex_p1 ex_init ADDR_BCAST]
    by (simp add: ex_p1_def ex_init_def Arp_init_def)
  have c: "transmit ex_answered ex_p2 ex_peer_ip =
      Inr (ex_answered\<lparr>link_out := link_out ex_answered @
                           [Tx (Ip_chain ex_p2) ex_peer_mac ETH_IP4]\<rparr>)"
    using transmit_cases [of ex_p2 ex_answered ex_peer_ip] nb
    by (simp add: ex_p2_def ex_answered_def map_find_def)
  have d: "transmit ex_init ex_p1 ex_peer_ip = Inr ex_pending"
    using transmit_cases [of ex_p1 ex_init ex_peer_ip] nb
    by (simp add: ex_p1_def ex_init_def ex_pending_def Arp_init_def map_find_def)
  have e: "transmit ex_pending ex_p2 ex_peer_ip =
      Inr (ex_pending\<lparr>waiting_packets := [(ex_peer_ip, Packet 100 1 (Some ex_p2))]\<rparr>)"
    using transmit_cases [of ex_p2 ex_pending ex_peer_ip] nb
    by (simp add: ex_p1_def ex_p2_def ex_init_def ex_pending_def Arp_init_def map_find_def)
  from a b c d e show ?thesis by simp
qed

text \<open>
  The specification has every cache miss kick off a resolution. The second
  miss for the same next hop only extends the chain: the log of the link still holds
  the single request of the first miss, the counter and the timer are as before.
\<close>

theorem second_miss_counterexample:
  "reachable ex_pending \<and> psize ex_p2 \<noteq> 0 \<and> ex_peer_ip \<noteq> ADDR_BCAST \<and>
   map_find (cache_map ex_pending) ex_peer_ip = None \<and>
   transmit ex_pending ex_p2 ex_peer_ip =
     Inr (ex_pending\<lparr>waiting_packets := [(ex_peer_ip, chain ex_p1 ex_p2)]\<rparr>) \<and>
   arp_requests_for ex_peer_ip (link_out ex_pending) = 1"
proof -
  have "psize ex_p2 \<noteq> 0 \<and> ex_peer_ip \<noteq> ADDR_BCAST \<and>
      map_find (cache_map ex_pending) ex_peer_ip = None \<and>
      transmit ex_pending ex_p2 ex_peer_ip =
        Inr (ex_pending\<lparr>waiting_packets := [(ex_peer_ip, chain ex_p1 ex_p2)]\<rparr>) \<and>
      arp_requests_for ex_peer_ip (link_out ex_pending) = 1"
    by (simp add: ex_defs Arp_init_def ADDR_BCAST_def map_find_def transmit_def
        await_resolution_def arp_requests_for_def is_arp_request_for_def request_frame_def)
  with ex_pending_reachable show ?thesis by simp
qed

text \<open>
  C4 (amended). A request always increments \<^verbatim>\<open>requests_rx\<close>. If its target is the
  local IPv4 address, one ARP reply goes out after the chain that waited for the
  requester, if any: sender IPv4 the local address, sender MAC the local MAC, sent to
  the requester's MAC with Ethertype ARP, and \<^verbatim>\<open>replies_tx\<close> is incremented. If not,
  and a proxy predicate is installed and accepts the target, the same reply goes out
  with the target as sender IPv4. Otherwise no ARP frame goes out and \<^verbatim>\<open>replies_tx\<close>
  keeps its value; the link still receives the chain that waited for the requester.
\<close>

theorem request_handling:
  assumes "reachable s" and "opcode (in_hdr pckt) = H_request"
  shows "\<exists>s'. receive s pckt now = Inr s' \<and>
           requests_rx s' = requests_rx s + 1 \<and>
           (if dipaddr (in_hdr pckt) = inet_ip_addr s then
              link_out s' =
                link_out s @ drained s (sipaddr (in_hdr pckt)) (shwaddr (in_hdr pckt)) @
                  [Tx (Arp_frame \<lparr>opcode = H_reply, shwaddr = mac_local s,
                                  sipaddr = inet_ip_addr s,
                                  dhwaddr = shwaddr (in_hdr pckt),
                                  dipaddr = sipaddr (in_hdr pckt)\<rparr>)
                      (shwaddr (in_hdr pckt)) ETH_ARP] \<and>
              replies_tx s' = replies_tx s + 1
            else if (case proxy s of None \<Rightarrow> False | Some f \<Rightarrow> f (dipaddr (in_hdr pckt))) then
              link_out s' =
                link_out s @ drained s (sipaddr (in_hdr pckt)) (shwaddr (in_hdr pckt)) @
                  [Tx (Arp_frame \<lparr>opcode = H_reply, shwaddr = mac_local s,
                                  sipaddr = dipaddr (in_hdr pckt),
                                  dhwaddr = shwaddr (in_hdr pckt),
                                  dipaddr = sipaddr (in_hdr pckt)\<rparr>)
                      (shwaddr (in_hdr pckt)) ETH_ARP] \<and>
              replies_tx s' = replies_tx s + 1
            else
              link_out s' =
                link_out s @ drained s (sipaddr (in_hdr pckt)) (shwaddr (in_hdr pckt)) \<and>
              arp_frames (drained s (sipaddr (in_hdr pckt)) (shwaddr (in_hdr pckt))) = [] \<and>
              replies_tx s' = replies_tx s)"
proof -
  from assms(1) have inv: "arp_inv s" by (rule reachable_inv)
  show ?thesis
    using assms(2)
    by (simp add: receive_result [OF inv] dispatch_link_out dispatch_request_counters
        reply_frame_def drained_def arp_frames_def split: option.splits)
qed

theorem request_handling_witness:
  "reachable ex_init \<and>
   (\<exists>s'. receive ex_init (ex_frame H_request ex_local_ip) 5 = Inr s' \<and>
      requests_rx s' = 1 \<and> replies_tx s' = 1 \<and>
      link_out s' =
        [Tx (Arp_frame \<lparr>opcode = H_reply, shwaddr = ex_local_mac, sipaddr = ex_local_ip,
                        dhwaddr = ex_peer_mac, dipaddr = ex_peer_ip\<rparr>) ex_peer_mac ETH_ARP])"
proof -
  have op: "opcode (in_hdr (ex_frame H_request ex_local_ip)) = H_request"
    by (simp add: ex_frame_def)
  have d: "drained ex_init ex_peer_ip ex_peer_mac = []"
    by (simp add: drained_def ex_init_def Arp_init_def map_find_def)
  show ?thesis
    using request_handling [OF ex_init_reachable op, of 5] ex_init_reachable d
    by (simp add: ex_frame_def ex_init_def Arp_init_def) blast
qed

text \<open>
  The specification has no frame at all leave for a request whose target is
  neither local nor proxied. With a packet waiting for the requester, that packet
  leaves during \<^verbatim>\<open>receive\<close>.
\<close>

theorem request_for_unknown_target_counterexample:
  "reachable ex_pending \<and>
   dipaddr (in_hdr (ex_frame H_request 0x0A000009)) \<noteq> inet_ip_addr ex_pending \<and>
   proxy ex_pending = None \<and>
   receive ex_pending (ex_frame H_request 0x0A000009) 5 =
     Inr (ex_pending\<lparr>requests_rx := 1,
            cache_map := [(ex_peer_ip, \<lparr>mac = ex_peer_mac, timestamp = 5\<rparr>)],
            waiting_packets := [], flush_timer := True,
            link_out := link_out ex_pending @ [Tx (Ip_chain ex_p1) ex_peer_mac ETH_IP4]\<rparr>)"
proof -
  have "receive ex_pending (ex_frame H_request 0x0A000009) 5 =
     Inr (ex_pending\<lparr>requests_rx := 1,
            cache_map := [(ex_peer_ip, \<lparr>mac = ex_peer_mac, timestamp = 5\<rparr>)],
            waiting_packets := [], flush_timer := True,
            link_out := link_out ex_pending @ [Tx (Ip_chain ex_p1) ex_peer_mac ETH_IP4]\<rparr>)"
    by (simp add: ex_defs Arp_init_def receive_def cache_def ship_waiting_def transmit_def
        dispatch_def map_find_def map_erase_def new_entry_def linklayer_out_def Let_def
        ADDR_BCAST_def H_request_def)
  moreover have "dipaddr (in_hdr (ex_frame H_request 0x0A000009)) \<noteq> inet_ip_addr ex_pending \<and>
      proxy ex_pending = None"
    by (simp add: ex_defs Arp_init_def)
  ultimately show ?thesis using ex_pending_reachable by simp
qed

text \<open>
  C5 (amended). In every reachable object the flush timer runs exactly when the cache
  has an entry, and the resolve timer runs whenever a chain waits. The resolve timer
  may run with nothing waiting; it is stopped by its next expiry, so that right after
  each of the two timer callbacks the timer runs exactly when its map has an entry.
\<close>

theorem timers_and_data:
  assumes "reachable s"
  shows "(flush_timer s \<longleftrightarrow> cache_map s \<noteq> []) \<and>
         (waiting_packets s \<noteq> [] \<longrightarrow> resolve_timer s) \<and>
         (resolve_timer (resolve_timer_timeout s) \<longleftrightarrow>
            waiting_packets (resolve_timer_timeout s) \<noteq> []) \<and>
         (flush_timer (flush_timer_timeout s now) \<longleftrightarrow>
            cache_map (flush_timer_timeout s now) \<noteq> [])"
proof -
  from assms have inv: "arp_inv s" by (rule reachable_inv)
  then have inv': "arp_inv (flush_timer_timeout s now)"
    by (rule arp_inv_flush_timer_timeout)
  from inv have "resolve_timer (resolve_timer_timeout s) \<longleftrightarrow>
      waiting_packets (resolve_timer_timeout s) \<noteq> []"
    by (auto simp: resolve_timer_timeout_def arp_inv_def)
  with inv inv' show ?thesis
    by (simp add: arp_inv_def)
qed

theorem timers_and_data_witness:
  "reachable ex_pending \<and> flush_timer ex_pending = (cache_map ex_pending \<noteq> []) \<and>
   waiting_packets ex_pending \<noteq> [] \<and> resolve_timer ex_pending \<and>
   (resolve_timer (resolve_timer_timeout ex_pending) \<longleftrightarrow>
      waiting_packets (resolve_timer_timeout ex_pending) \<noteq> [])"
  using timers_and_data [OF ex_pending_reachable, of 0] ex_pending_reachable
  by (simp add: ex_pending_def)

text \<open>
  The specification has the resolve timer stopped as soon as nothing waits.
  After the peer's reply has released the only chain, \<^verbatim>\<open>receive\<close> returns with the
  waiting map empty and the resolve timer still running.
\<close>

theorem resolve_timer_outlives_queue_counterexample:
  "reachable ex_answered \<and> resolve_timer ex_answered \<and> waiting_packets ex_answered = []"
  using ex_answered_reachable
  by (simp add: ex_answered_def ex_pending_def)

text \<open>
  C6 (amended). \<^verbatim>\<open>receive\<close> makes no length check. A buffer shorter than the 28 bytes
  of an ARP header is processed like a buffer of full length, from the header fields
  read in place: the sender is learned, the chain waiting for the sender is handed to
  the link and its entry erased, and the opcode is dispatched.
\<close>

theorem short_frame_processed:
  assumes "reachable s" and "in_size pckt < 28"
  shows "receive s pckt now = receive s (pckt\<lparr>in_size := 28\<rparr>) now \<and>
         (\<exists>s'. receive s pckt now = Inr s' \<and>
            map_find (cache_map s') (sipaddr (in_hdr pckt)) =
              Some \<lparr>mac = shwaddr (in_hdr pckt), timestamp = now\<rparr> \<and>
            map_find (waiting_packets s') (sipaddr (in_hdr pckt)) = None \<and>
            (\<exists>rest. link_out s' =
               link_out s @ drained s (sipaddr (in_hdr pckt)) (shwaddr (in_hdr pckt)) @ rest))"
proof -
  from assms(1) have inv: "arp_inv s" by (rule reachable_inv)
  have "receive s pckt now = receive s (pckt\<lparr>in_size := 28\<rparr>) now"
    by (simp add: receive_def)
  then show ?thesis
    by (simp add: receive_result [OF inv] cache_lookup map_find_erase dispatch_link_out)
qed

theorem short_frame_processed_witness:
  "reachable ex_pending \<and> (10 :: nat) < 28 \<and>
   (\<exists>s'. receive ex_pending ((ex_frame H_reply ex_local_ip)\<lparr>in_size := 10\<rparr>) 5 = Inr s' \<and>
      map_find (cache_map s') ex_peer_ip = Some \<lparr>mac = ex_peer_mac, timestamp = 5\<rparr> \<and>
      map_find (waiting_packets s') ex_peer_ip = None)"
proof -
  have sz: "in_size ((ex_frame H_reply ex_local_ip)\<lparr>in_size := 10\<rparr>) < 28"
    by simp
  show ?thesis
    using short_frame_processed [OF ex_pending_reachable sz, of 5, THEN conjunct2]
      ex_pending_reachable
    by (simp add: ex_frame_def) blast
qed

text \<open>
  The specification has a short buffer discarded. A buffer of 10 bytes whose
  header position reads as a reply from the peer changes the cache, the waiting map,
  \<^verbatim>\<open>replies_rx\<close> and the log of the link.
\<close>

theorem short_frame_counterexample:
  "reachable ex_pending \<and>
   in_size ((ex_frame H_reply ex_local_ip)\<lparr>in_size := 10\<rparr>) < 28 \<and>
   receive ex_pending ((ex_frame H_reply ex_local_ip)\<lparr>in_size := 10\<rparr>) 5 = Inr ex_answered \<and>
   cache_map ex_answered \<noteq> cache_map ex_pending \<and>
   waiting_packets ex_answered \<noteq> waiting_packets ex_pending \<and>
   replies_rx ex_answered \<noteq> replies_rx ex_pending \<and>
   link_out ex_answered \<noteq> link_out ex_pending"
proof -
  have "receive ex_pending ((ex_frame H_reply ex_local_ip)\<lparr>in_size := 10\<rparr>) 5 = Inr ex_answered"
    by (simp add: ex_defs Arp_init_def receive_def cache_def ship_waiting_def transmit_def
        dispatch_def map_find_def map_erase_def new_entry_def linklayer_out_def Let_def
        ADDR_BCAST_def H_request_def H_reply_def request_frame_def)
  moreover have "cache_map ex_answered \<noteq> cache_map ex_pending \<and>
      waiting_packets ex_answered \<noteq> waiting_packets ex_pending \<and>
      replies_rx ex_answered \<noteq> replies_rx ex_pending \<and>
      link_out ex_answered \<noteq> link_out ex_pending"
    by (simp add: ex_answered_def ex_pending_def ex_init_def Arp_init_def)
  ultimately show ?thesis using ex_pending_reachable by simp
qed

text \<open>
  C7. \<^verbatim>\<open>cache\<close>, the learn operation, is a total function on objects. On a reachable
  object: with no entry for the address it inserts one stamped with the current time
  and leaves the flush timer running (it was stopped if the cache was empty); with an
  entry of the same MAC address it changes the timestamp of that entry and nothing
  else; with an entry of another MAC address it replaces the entry. In each case a
  lookup of the address gives the learned MAC address and the current time, other
  addresses are as before, the keys are distinct and the cache holds exactly one
  entry for the address. After learning the same pair any number of times, at least
  once, the cache holds exactly one entry for the address, stamped with the time of
  the last learn.
\<close>

theorem cache_learn:
  assumes "reachable s"
  shows "(map_find (cache_map s) ip = None \<longrightarrow>
            cache s ip m now =
              s\<lparr>cache_map := map_put ip \<lparr>mac = m, timestamp = now\<rparr> (cache_map s),
                flush_timer := True\<rparr> \<and>
            (cache_map s = [] \<longrightarrow> \<not> flush_timer s)) \<and>
         (\<forall>e. map_find (cache_map s) ip = Some e \<and> mac e = m \<longrightarrow>
            cache s ip m now =
              s\<lparr>cache_map := map_put ip (e\<lparr>timestamp := now\<rparr>) (cache_map s)\<rparr>) \<and>
         (\<forall>e. map_find (cache_map s) ip = Some e \<and> mac e \<noteq> m \<longrightarrow>
            cache s ip m now =
              s\<lparr>cache_map :=
                  map_put ip \<lparr>mac = m, timestamp = now\<rparr> (map_erase ip (cache_map s))\<rparr>) \<and>
         (\<forall>k. map_find (cache_map (cache s ip m now)) k =
            (if k = ip then Some \<lparr>mac = m, timestamp = now\<rparr> else map_find (cache_map s) k)) \<and>
         distinct (map_keys (cache_map (cache s ip m now))) \<and>
         filter (\<lambda>x. fst x = ip) (cache_map (cache s ip m now)) =
           [(ip, \<lparr>mac = m, timestamp = now\<rparr>)] \<and>
         (ts \<noteq> [] \<longrightarrow>
            filter (\<lambda>x. fst x = ip) (cache_map (fold (\<lambda>t s'. cache s' ip m t) ts s)) =
              [(ip, \<lparr>mac = m, timestamp = last ts\<rparr>)])"
proof -
  from assms have inv: "arp_inv s" by (rule reachable_inv)
  then have ok: "map_ok (cache_map s)" and ft: "flush_timer s \<longleftrightarrow> cache_map s \<noteq> []"
    by (simp_all add: arp_inv_def)
  have cases: "(map_find (cache_map s) ip = None \<longrightarrow>
            cache s ip m now =
              s\<lparr>cache_map := map_put ip \<lparr>mac = m, timestamp = now\<rparr> (cache_map s),
                flush_timer := True\<rparr> \<and>
            (cache_map s = [] \<longrightarrow> \<not> flush_timer s)) \<and>
         (\<forall>e. map_find (cache_map s) ip = Some e \<and> mac e = m \<longrightarrow>
            cache s ip m now =
              s\<lparr>cache_map := map_put ip (e\<lparr>timestamp := now\<rparr>) (cache_map s)\<rparr>) \<and>
         (\<forall>e. map_find (cache_map s) ip = Some e \<and> mac e \<noteq> m \<longrightarrow>
            cache s ip m now =
              s\<lparr>cache_map :=
                  map_put ip \<lparr>mac = m, timestamp = now\<rparr> (map_erase ip (cache_map s))\<rparr>)"
    using ft by (simp add: cache_cases)
  have dist: "distinct (map_keys (cache_map (cache s ip m now)))"
    using ok by (intro map_ok_distinct cache_map_ok)
  have many: "filter (\<lambda>x. fst x = ip) (cache_map (fold (\<lambda>t s'. cache s' ip m t) ts s)) =
      [(ip, \<lparr>mac = m, timestamp = last ts\<rparr>)]" if "ts \<noteq> []"
  proof -
    from that have ts: "ts = butlast ts @ [last ts]" by simp
    let ?s1 = "fold (\<lambda>t s'. cache s' ip m t) (butlast ts) s"
    have "arp_inv ?s1" using inv by (rule arp_inv_fold_cache)
    then have "map_ok (cache_map ?s1)" by (simp add: arp_inv_def)
    then have "filter (\<lambda>x. fst x = ip) (cache_map (cache ?s1 ip m (last ts))) =
        [(ip, \<lparr>mac = m, timestamp = last ts\<rparr>)]"
      by (rule cache_entries)
    moreover have "fold (\<lambda>t s'. cache s' ip m t) ts s = cache ?s1 ip m (last ts)"
      by (subst ts) (simp del: append_butlast_last_id)
    ultimately show ?thesis by simp
  qed
  have look: "\<forall>k. map_find (cache_map (cache s ip m now)) k =
      (if k = ip then Some \<lparr>mac = m, timestamp = now\<rparr> else map_find (cache_map s) k)"
    by (simp add: cache_lookup)
  have one: "filter (\<lambda>x. fst x = ip) (cache_map (cache s ip m now)) =
      [(ip, \<lparr>mac = m, timestamp = now\<rparr>)]"
    using ok by (rule cache_entries)
  from cases look dist one many show ?thesis by blast
qed

theorem cache_learn_witness:
  "reachable ex_init \<and> reachable ex_answered \<and>
   map_find (cache_map ex_init) ex_peer_ip = None \<and> cache_map ex_init = [] \<and>
   \<not> flush_timer ex_init \<and>
   cache ex_init ex_peer_ip ex_peer_mac 5 =
     ex_init\<lparr>cache_map := [(ex_peer_ip, \<lparr>mac = ex_peer_mac, timestamp = 5\<rparr>)],
             flush_timer := True\<rparr> \<and>
   map_find (cache_map ex_answered) ex_peer_ip = Some \<lparr>mac = ex_peer_mac, timestamp = 5\<rparr> \<and>
   cache ex_answered ex_peer_ip ex_peer_mac 9 =
     ex_answered\<lparr>cache_map := [(ex_peer_ip, \<lparr>mac = ex_peer_mac, timestamp = 9\<rparr>)]\<rparr> \<and>
   cache ex_answered ex_peer_ip 0x020000000007 9 =
     ex_answered\<lparr>cache_map := [(ex_peer_ip, \<lparr>mac = 0x020000000007, timestamp = 9\<rparr>)]\<rparr> \<and>
   filter (\<lambda>x. fst x = ex_peer_ip)
     (cache_map (fold (\<lambda>t s'. cache s' ex_peer_ip ex_peer_mac t) [7, 8, 9] ex_init)) =
     [(ex_peer_ip, \<lparr>mac = ex_peer_mac, timestamp = 9\<rparr>)]"
proof -
  have n: "map_find (cache_map ex_init) ex_peer_ip = None" "cache_map ex_init = []"
    by (simp_all add: ex_init_def Arp_init_def map_find_def)
  have h: "map_find (cache_map ex_answered) ex_peer_ip = Some \<lparr>mac = ex_peer_mac, timestamp = 5\<rparr>"
    by (simp add: ex_answered_def map_find_def)
  have ne: "ex_peer_mac \<noteq> 0x020000000007" by (simp add: ex_peer_mac_def)
  have a: "cache ex_init ex_peer_ip ex_peer_mac 5 =
      ex_init\<lparr>cache_map := [(ex_peer_ip, \<lparr>mac = ex_peer_mac, timestamp = 5\<rparr>)],
              flush_timer := True\<rparr> \<and> \<not> flush_timer ex_init"
    using cache_learn [OF ex_init_reachable, of ex_peer_ip ex_peer_mac 5 "[]"] n
    by simp
  have b: "cache ex_answered ex_peer_ip ex_peer_mac 9 =
      ex_answered\<lparr>cache_map := [(ex_peer_ip, \<lparr>mac = ex_peer_mac, timestamp = 9\<rparr>)]\<rparr>"
    using cache_learn [OF ex_answered_reachable, of ex_peer_ip ex_peer_mac 9 "[]"] h
    by (simp add: ex_answered_def)
  have c: "cache ex_answered ex_peer_ip 0x020000000007 9 =
      ex_answered\<lparr>cache_map := [(ex_peer_ip, \<lparr>mac = 0x020000000007, timestamp = 9\<rparr>)]\<rparr>"
    using cache_learn [OF ex_answered_reachable, of ex_peer_ip "0x020000000007" 9 "[]"] h ne
    by (simp add: ex_answered_def map_erase_def)
  have d: "filter (\<lambda>x. fst x = ex_peer_ip)
      (cache_map (fold (\<lambda>t s'. cache s' ex_peer_ip ex_peer_mac t) [7, 8, 9] ex_init)) =
      [(ex_peer_ip, \<lparr>mac = ex_peer_mac, timestamp = 9\<rparr>)]"
    using cache_learn [OF ex_init_reachable, of ex_peer_ip ex_peer_mac 0 "[7, 8, 9]"]
    by simp
  from ex_init_reachable ex_answered_reachable n h a b c d show ?thesis by simp
qed

text \<open>
  C8 (amended). From a reachable object in which the address \<^verbatim>\<open>ip\<close>, which is not
  the broadcast address, has neither a cache entry nor a waiting chain, take any run
  made of transmits of
  non-zero packets to \<^verbatim>\<open>ip\<close> and of expiries of the resolve timer. The run never
  fails. Of the frames it hands to the link, the ARP requests for \<^verbatim>\<open>ip\<close> are: one at
  the first transmit, none at later transmits, and one for each expiry of the timer
  after the first transmit; none of the frames has Ethertype IPv4. A call of the timer
  callback that finds nothing waiting stops the resolve timer and does nothing else.
\<close>

theorem unanswered_resolution:
  assumes "reachable s" and "ip \<noteq> ADDR_BCAST"
    and "map_find (cache_map s) ip = None" and "map_find (waiting_packets s) ip = None"
    and "list_all (tx_or_tick ip) evs"
  shows "(\<exists>s' new. run s evs = Inr s' \<and> link_out s' = link_out s @ new \<and>
            arp_requests_for ip new = expected_requests evs \<and> ip4_frames new = []) \<and>
         (waiting_packets s = [] \<longrightarrow> resolve_waiting s = s\<lparr>resolve_timer := False\<rparr>)"
proof
  from assms(1) have "arp_inv s" by (rule reachable_inv)
  from this assms(2-5)
  show "\<exists>s' new. run s evs = Inr s' \<and> link_out s' = link_out s @ new \<and>
      arp_requests_for ip new = expected_requests evs \<and> ip4_frames new = []"
  proof (induction evs arbitrary: s)
    case Nil
    then show ?case by (simp add: arp_requests_for_def ip4_frames_def)
  next
    case (Cons e evs)
    from Cons.prems(5) have e: "tx_or_tick ip e" and evs: "list_all (tx_or_tick ip) evs"
      by simp_all
    show ?case
    proof (cases e)
      case (Transmit p hop)
      with e have hop: "hop = ip" and sz: "psize p \<noteq> 0" by simp_all
      let ?s1 = "await_resolution s p ip"
      have st: "transmit s p ip = Inr ?s1"
        using sz Cons.prems(2,3) by (rule transmit_waiting)
      have inv1: "arp_inv ?s1"
        using Cons.prems(1) sz Cons.prems(2) by (rule arp_inv_await_resolution)
      have c1: "map_find (cache_map ?s1) ip = None" using Cons.prems(3) by simp
      have w1: "map_find (waiting_packets ?s1) ip \<noteq> None"
        by (simp add: await_resolution_waiting map_find_put)
      let ?new1 = "[request_frame (mac_local s) (inet_ip_addr s) ip]"
      have l1: "link_out ?s1 = link_out s @ ?new1"
        using Cons.prems(4) by (simp add: await_resolution_link_out)
      from waiting_run [OF inv1 Cons.prems(2) c1 w1 evs]
      obtain s' new where n: "run ?s1 evs = Inr s'" "link_out s' = link_out ?s1 @ new"
        "arp_requests_for ip new = ticks evs" "ip4_frames new = []"
        by blast
      from l1 n have "link_out s' = link_out s @ (?new1 @ new)"
        "arp_requests_for ip (?new1 @ new) = Suc (ticks evs)" "ip4_frames (?new1 @ new) = []"
        by (simp_all add: arp_requests_for_append arp_requests_for_first ip4_frames_first
            ip4_frames_append)
      with n(1) st Transmit hop show ?thesis by auto
    next
      case Resolve_timeout
      let ?s1 = "resolve_timer_timeout s"
      have inv1: "arp_inv ?s1"
        using Cons.prems(1) by (rule arp_inv_resolve_timer_timeout)
      have c1: "map_find (cache_map ?s1) ip = None" using Cons.prems(3) by simp
      have w1: "map_find (waiting_packets ?s1) ip = None" using Cons.prems(4) by simp
      from resolve_timer_timeout_effect [OF Cons.prems(1), of ip] Cons.prems(4)
      obtain new1 where n1: "link_out ?s1 = link_out s @ new1" "ip4_frames new1 = []"
        "arp_requests_for ip new1 = 0"
        by blast
      from Cons.IH [OF inv1 Cons.prems(2) c1 w1 evs]
      obtain s' new where n: "run ?s1 evs = Inr s'" "link_out s' = link_out ?s1 @ new"
        "arp_requests_for ip new = expected_requests evs" "ip4_frames new = []"
        by blast
      from n1 n have "link_out s' = link_out s @ (new1 @ new)"
        "arp_requests_for ip (new1 @ new) = expected_requests evs" "ip4_frames (new1 @ new) = []"
        by (simp_all add: arp_requests_for_append ip4_frames_def)
      with n(1) Resolve_timeout show ?thesis by auto
    next
      case (Receive pckt now)
      with e show ?thesis by simp
    next
      case (Flush_timeout now)
      with e show ?thesis by simp
    next
      case (Set_proxy f)
      with e show ?thesis by simp
    next
      case (Set_ip a)
      with e show ?thesis by simp
    qed
  qed
next
  show "waiting_packets s = [] \<longrightarrow> resolve_waiting s = s\<lparr>resolve_timer := False\<rparr>"
    by (simp add: resolve_waiting_def)
qed

text \<open>
  An instance: two transmits to the peer, an expiry of the timer, a third transmit and
  another expiry, from the object after construction. Three requests are expected.
\<close>

theorem unanswered_resolution_witness:
  "reachable ex_init \<and> ex_peer_ip \<noteq> ADDR_BCAST \<and>
   map_find (cache_map ex_init) ex_peer_ip = None \<and>
   map_find (waiting_packets ex_init) ex_peer_ip = None \<and>
   list_all (tx_or_tick ex_peer_ip)
     [Transmit ex_p1 ex_peer_ip, Transmit ex_p2 ex_peer_ip, Resolve_timeout,
      Transmit ex_p1 ex_peer_ip, Resolve_timeout] \<and>
   (\<exists>s' new.
      run ex_init [Transmit ex_p1 ex_peer_ip, Transmit ex_p2 ex_peer_ip, Resolve_timeout,
        Transmit ex_p1 ex_peer_ip, Resolve_timeout] = Inr s' \<and>
      link_out s' = link_out ex_init @ new \<and>
      arp_requests_for ex_peer_ip new = 3 \<and> ip4_frames new = []) \<and>
   resolve_waiting ex_init = ex_init\<lparr>resolve_timer := False\<rparr>"
proof -
  have h: "ex_peer_ip \<noteq> ADDR_BCAST" "map_find (cache_map ex_init) ex_peer_ip = None"
    "map_find (waiting_packets ex_init) ex_peer_ip = None"
    by (simp_all add: ex_defs ADDR_BCAST_def Arp_init_def map_find_def)
  have l: "list_all (tx_or_tick ex_peer_ip)
     [Transmit ex_p1 ex_peer_ip, Transmit ex_p2 ex_peer_ip, Resolve_timeout,
      Transmit ex_p1 ex_peer_ip, Resolve_timeout]"
    by (simp add: ex_p1_def ex_p2_def)
  have w: "waiting_packets ex_init = []" by (simp add: ex_init_def Arp_init_def)
  have n: "expected_requests
     [Transmit ex_p1 ex_peer_ip, Transmit ex_p2 ex_peer_ip, Resolve_timeout,
      Transmit ex_p1 ex_peer_ip, Resolve_timeout] = 3"
    by simp
  note inst = unanswered_resolution [OF ex_init_reachable h l, unfolded n]
  from inst w have "resolve_waiting ex_init = ex_init\<lparr>resolve_timer := False\<rparr>"
    by blast
  with inst ex_init_reachable h l show ?thesis by blast
qed

text \<open>
  The specification has no exception for the broadcast address. It has no cache entry
  and no waiting chain, yet a packet transmitted to it is never enqueued: it leaves at
  once as an IPv4 frame for the broadcast MAC address, and no ARP request is sent.
\<close>

theorem broadcast_next_hop_counterexample:
  "reachable ex_init \<and>
   map_find (cache_map ex_init) ADDR_BCAST = None \<and>
   map_find (waiting_packets ex_init) ADDR_BCAST = None \<and>
   list_all (tx_or_tick ADDR_BCAST) [Transmit ex_p1 ADDR_BCAST] \<and>
   expected_requests [Transmit ex_p1 ADDR_BCAST] = 1 \<and>
   run ex_init [Transmit ex_p1 ADDR_BCAST] =
     Inr (ex_init\<lparr>link_out := [Tx (Ip_chain ex_p1) MAC_BROADCAST ETH_IP4]\<rparr>) \<and>
   arp_requests_for ADDR_BCAST [Tx (Ip_chain ex_p1) MAC_BROADCAST ETH_IP4] = 0 \<and>
   ip4_frames [Tx (Ip_chain ex_p1) MAC_BROADCAST ETH_IP4] =
     [Tx (Ip_chain ex_p1) MAC_BROADCAST ETH_IP4]"
proof -
  have "map_find (cache_map ex_init) ADDR_BCAST = None \<and>
      map_find (waiting_packets ex_init) ADDR_BCAST = None \<and>
      list_all (tx_or_tick ADDR_BCAST) [Transmit ex_p1 ADDR_BCAST] \<and>
      expected_requests [Transmit ex_p1 ADDR_BCAST] = 1"
    by (simp add: ex_init_def ex_p1_def Arp_init_def map_find_def)
  moreover have "run ex_init [Transmit ex_p1 ADDR_BCAST] =
      Inr (ex_init\<lparr>link_out := [Tx (Ip_chain ex_p1) MAC_BROADCAST ETH_IP4]\<rparr>)"
    by (simp add: ex_init_def ex_p1_def Arp_init_def transmit_def linklayer_out_def)
  moreover have "arp_requests_for ADDR_BCAST [Tx (Ip_chain ex_p1) MAC_BROADCAST ETH_IP4] = 0 \<and>
      ip4_frames [Tx (Ip_chain ex_p1) MAC_BROADCAST ETH_IP4] =
        [Tx (Ip_chain ex_p1) MAC_BROADCAST ETH_IP4]"
    by (simp add: arp_requests_for_def is_arp_request_for_def ip4_frames_def)
  ultimately show ?thesis using ex_init_reachable by simp
qed

text \<open>
  C9 (amended). Nothing keeps the local or the broadcast address out of the cache:
  \<^verbatim>\<open>receive\<close> stores the sender of every frame. What holds is that every address in
  the cache of an object was the sender IPv4 address of a frame delivered to it;
  transmitting, the timers and the configuration add no entry.
\<close>

theorem cache_keys_are_senders:
  assumes "run (Arp_init ip m interval) evs = Inr s"
  shows "set (map_keys (cache_map s)) \<subseteq> set (senders evs)"
  using run_cache_keys [OF assms]
  by (simp add: Arp_init_def map_keys_def)

theorem cache_keys_are_senders_witness:
  "run (Arp_init ex_local_ip ex_local_mac 300)
     [Receive (ex_spoof_frame ex_local_ip) 5, Receive (ex_spoof_frame ADDR_BCAST) 6] =
     Inr ex_spoofed \<and>
   set (map_keys (cache_map ex_spoofed)) \<subseteq> {ex_local_ip, ADDR_BCAST}"
  using cache_keys_are_senders [OF ex_spoofed_run [unfolded ex_init_def]]
    ex_spoofed_run [unfolded ex_init_def]
  by (simp add: ex_spoof_frame_def)

text \<open>
  The specification has no entry for the local or the broadcast address in any
  reachable object. Two frames that name these addresses as their sender put both into
  the cache.
\<close>

theorem local_and_broadcast_cached_counterexample:
  "reachable ex_spoofed \<and>
   map_find (cache_map ex_spoofed) (inet_ip_addr ex_spoofed) =
     Some \<lparr>mac = ex_peer_mac, timestamp = 5\<rparr> \<and>
   map_find (cache_map ex_spoofed) ADDR_BCAST = Some \<lparr>mac = ex_peer_mac, timestamp = 6\<rparr>"
  using ex_spoofed_reachable
  by (simp add: ex_defs Arp_init_def map_find_def ADDR_BCAST_def)

text \<open>
  C10. A frame whose opcode is neither request nor reply is still learned and still
  releases the chain waiting for its sender; after that nothing more happens: the
  link receives the waiting chain if there is one and no ARP frame, and the four
  counters keep their values.
\<close>

theorem unknown_opcode_learns_and_ships:
  assumes "reachable s"
    and "opcode (in_hdr pckt) \<noteq> H_request" and "opcode (in_hdr pckt) \<noteq> H_reply"
  shows "\<exists>s'. receive s pckt now = Inr s' \<and>
           map_find (cache_map s') (sipaddr (in_hdr pckt)) =
             Some \<lparr>mac = shwaddr (in_hdr pckt), timestamp = now\<rparr> \<and>
           link_out s' =
             link_out s @ drained s (sipaddr (in_hdr pckt)) (shwaddr (in_hdr pckt)) \<and>
           arp_frames (drained s (sipaddr (in_hdr pckt)) (shwaddr (in_hdr pckt))) = [] \<and>
           map_find (waiting_packets s') (sipaddr (in_hdr pckt)) = None \<and>
           requests_rx s' = requests_rx s \<and> replies_rx s' = replies_rx s \<and>
           replies_tx s' = replies_tx s \<and> requests_tx s' = requests_tx s"
proof -
  from assms(1) have inv: "arp_inv s" by (rule reachable_inv)
  show ?thesis
    using assms(2,3)
    by (simp add: receive_result [OF inv] dispatch_other cache_lookup map_find_erase
        drained_def arp_frames_def split: option.splits)
qed

theorem unknown_opcode_learns_and_ships_witness:
  "reachable ex_pending \<and> (7 :: 16 word) \<noteq> H_request \<and> (7 :: 16 word) \<noteq> H_reply \<and>
   (\<exists>s'. receive ex_pending (ex_frame 7 ex_local_ip) 5 = Inr s' \<and>
      map_find (cache_map s') ex_peer_ip = Some \<lparr>mac = ex_peer_mac, timestamp = 5\<rparr> \<and>
      link_out s' = link_out ex_pending @ [Tx (Ip_chain ex_p1) ex_peer_mac ETH_IP4] \<and>
      map_find (waiting_packets s') ex_peer_ip = None \<and>
      requests_rx s' = 0 \<and> replies_rx s' = 0 \<and> replies_tx s' = 0)"
proof -
  have op: "opcode (in_hdr (ex_frame 7 ex_local_ip)) \<noteq> H_request"
    "opcode (in_hdr (ex_frame 7 ex_local_ip)) \<noteq> H_reply"
    by (simp_all add: ex_frame_def H_request_def H_reply_def)
  have d: "drained ex_pending ex_peer_ip ex_peer_mac = [Tx (Ip_chain ex_p1) ex_peer_mac ETH_IP4]"
    by (simp add: drained_def ex_pending_def map_find_def)
  have c: "requests_rx ex_pending = 0 \<and> replies_rx ex_pending = 0 \<and> replies_tx ex_pending = 0"
    by (simp add: ex_pending_def ex_init_def Arp_init_def)
  show ?thesis
    using unknown_opcode_learns_and_ships [OF ex_pending_reachable op, of 5]
      ex_pending_reachable d c
    by (simp add: ex_frame_def H_request_def H_reply_def) blast
qed

end
